theory Spec2Isabelle
  imports Complex_Main "HOL-Library.Multiset"
begin

section \<open>voiceid: the cluster model and the identity decision\<close>

text \<open>
  A shallow embedding of \<^verbatim>\<open>trunk/scripts/voiceid.py\<close>.

  Conventions of the embedding.
  \<^item> A Python exception is a value of \<open>py_error\<close>; a function that can raise returns
    \<open>py_error + 'a\<close>, with \<open>Inl\<close> for the exception.
  \<^item> A Python 2 \<^verbatim>\<open>dict\<close> is an association list with distinct keys. The order of the
    list stands for the (implementation defined) iteration order of the dict; the
    theorems below hold for every order.
  \<^item> A Python \<^verbatim>\<open>float\<close> is an IEEE 754 double. A finite double is the \<open>real\<close> it denotes:
    comparison, \<^verbatim>\<open>max\<close>, \<^verbatim>\<open>abs\<close> and sorting are exact on doubles; the one subtraction, in
    \<^verbatim>\<open>get_distance\<close>, is the exact difference rounded to the nearest double
    (\<open>float_round\<close>); the literal \<^verbatim>\<open>.1\<close> is the double nearest to one tenth (\<open>float_0_1\<close>).
    There is no NaN and no infinity.
  \<^item> A Python \<^verbatim>\<open>int\<close> is an \<open>int\<close> (Python 2 promotes to \<^verbatim>\<open>long\<close>, so nothing wraps).
\<close>

datatype py_error =
    ValueError
  | IndexError
  | TypeError
  | AttributeError
  | KeyError
  | IOError
  | ShutilError
  | FileCheckError
  | SubprocessError

subsection \<open>Double precision arithmetic\<close>

text \<open>
  Rounding to the nearest double, ties to the even significand. A double other than zero
  is an integer multiple of its unit in the last place, \<open>2 powi ulp_exp x\<close>: the
  significand has 53 bits, and below \<open>2 powi - 1022\<close> the unit stays at \<open>2 powi - 1074\<close>
  (subnormal numbers). Overflow is not modelled: the one rounded operation of the program
  subtracts two absolute values, and the difference is no larger than the larger of them.
\<close>

definition round_even :: "real \<Rightarrow> int" where
  "round_even y =
     (let f = \<lfloor>y\<rfloor> in
      if y - of_int f < 1 / 2 then f
      else if 1 / 2 < y - of_int f then f + 1
      else if even f then f else f + 1)"

definition ulp_exp :: "real \<Rightarrow> int" where
  "ulp_exp x = max (\<lfloor>log 2 \<bar>x\<bar>\<rfloor> - 52) (- 1074)"

definition float_round :: "real \<Rightarrow> real" where
  "float_round x =
     (if x = 0 then 0
      else of_int (round_even (x / 2 powi ulp_exp x)) * 2 powi ulp_exp x)"

text \<open>\<^verbatim>\<open>x - y\<close> on doubles.\<close>

definition float_sub :: "real \<Rightarrow> real \<Rightarrow> real" where
  "float_sub x y = float_round (x - y)"

text \<open>The double that the literal \<^verbatim>\<open>.1\<close> denotes: \<open>0x1.999999999999ap-4\<close>.\<close>

definition float_0_1 :: real where
  "float_0_1 = 3602879701896397 / 2 ^ 55"

subsection \<open>Dictionaries\<close>

type_synonym ('k, 'v) dict = "('k \<times> 'v) list"

definition dict_get :: "('k, 'v) dict \<Rightarrow> 'k \<Rightarrow> 'v option" where
  "dict_get d k = map_of d k"

definition has_key :: "('k, 'v) dict \<Rightarrow> 'k \<Rightarrow> bool" where
  "has_key d k = (dict_get d k \<noteq> None)"

text \<open>\<^verbatim>\<open>d[k] = v\<close>: an existing key keeps its place, a new key is put at the end.\<close>

fun dict_set :: "('k, 'v) dict \<Rightarrow> 'k \<Rightarrow> 'v \<Rightarrow> ('k, 'v) dict" where
  "dict_set [] k v = [(k, v)]"
| "dict_set ((k', v') # d) k v =
     (if k' = k then (k, v) # d else (k', v') # dict_set d k v)"

definition dict_keys :: "('k, 'v) dict \<Rightarrow> 'k list" where
  "dict_keys d = map fst d"

definition dict_values :: "('k, 'v) dict \<Rightarrow> 'v list" where
  "dict_values d = map snd d"

subsection \<open>The Cluster class\<close>

text \<open>
  A segment is the list \<^verbatim>\<open>l.split()\<close> of one data line. \<^verbatim>\<open>generate_seg_file\<close> stores an
  \<^verbatim>\<open>int\<close> into position 2 of such a list, so a field is a string or an integer.
\<close>

datatype field = FStr string | FInt int

text \<open>
  The attributes of \<^verbatim>\<open>Cluster.__init__\<close>, in its order, and \<^verbatim>\<open>self.value\<close>, which
  \<^verbatim>\<open>get_best_speaker\<close> creates. \<open>None\<close> is Python's \<^verbatim>\<open>None\<close>.
\<close>

record Cluster =
  gender :: string
  frames :: int
  e :: "string option"
  name :: string
  speaker :: "string option"
  speakers :: "(string, real) dict"
  wave :: "string option"
  mfcc :: "string option"
  segments :: "field list list"
  seg_header :: "string option"
  value_attr :: "real option"

definition Cluster_init :: "string \<Rightarrow> string \<Rightarrow> int \<Rightarrow> Cluster" where
  "Cluster_init nm g fr =
     \<lparr> gender = g, frames = fr, e = None, name = nm, speaker = None, speakers = [],
       wave = None, mfcc = None, segments = [], seg_header = None, value_attr = None \<rparr>"

text \<open>
  \<^verbatim>\<open>add_speaker(self, name, value)\<close>, with \<open>v\<close> the float \<^verbatim>\<open>float(value)\<close>:
  \<^verbatim>\<open>
  if self.speakers.has_key( name ) == False:
      self.speakers[ name ] = float(value)
  else:
      if self.speakers[ name ] < float(value):
          self.speakers[ name ] = float(value)
  \<close>
\<close>

definition add_speaker :: "Cluster \<Rightarrow> string \<Rightarrow> real \<Rightarrow> Cluster" where
  "add_speaker c nm v =
     (case dict_get (speakers c) nm of
        None \<Rightarrow> c\<lparr>speakers := dict_set (speakers c) nm v\<rparr>
      | Some old \<Rightarrow>
          if old < v then c\<lparr>speakers := dict_set (speakers c) nm v\<rparr> else c)"

text \<open>A sequence of \<^verbatim>\<open>add_speaker\<close> calls on one cluster, as \<^verbatim>\<open>manage_ident\<close> issues them.\<close>

fun add_speaker_calls :: "Cluster \<Rightarrow> (string \<times> real) list \<Rightarrow> Cluster" where
  "add_speaker_calls c [] = c"
| "add_speaker_calls c ((nm, v) # calls) = add_speaker_calls (add_speaker c nm v) calls"

text \<open>\<^verbatim>\<open>max(xs)\<close> of a list: \<^verbatim>\<open>ValueError\<close> on the empty list.\<close>

fun py_max :: "real list \<Rightarrow> py_error + real" where
  "py_max [] = Inl ValueError"
| "py_max (x # xs) = Inr (fold max xs x)"

text \<open>
  \<^verbatim>\<open>
  def get_distance(self):
      values = self.speakers.values()
      values.sort(reverse=True)
      return abs(values[1]) - abs(values[0])
  \<close>
  \<^verbatim>\<open>values[1]\<close> is read first and raises \<^verbatim>\<open>IndexError\<close> when there are fewer than two
  values.
\<close>

definition get_distance :: "Cluster \<Rightarrow> py_error + real" where
  "get_distance c =
     (let vals = rev (sort (dict_values (speakers c))) in
      if length vals < 2 then Inl IndexError
      else Inr (float_sub \<bar>vals ! 1\<bar> \<bar>vals ! 0\<bar>))"

text \<open>
  \<^verbatim>\<open>
  def get_best_speaker(self):
      max_val = -33.0
      self.value = max(self.speakers.values())
      self.speaker = 'unknown'
      if self.value > max_val:
          for s in self.speakers:
              if self.speakers[s] == self.value:
                  self.speaker = s
                  break
      if self.get_distance() < .1:
          self.speaker = 'unknown'
      return self.speaker
  \<close>
  The result is the returned name and the cluster with \<^verbatim>\<open>self.value\<close> and
  \<^verbatim>\<open>self.speaker\<close> as the method leaves them.
\<close>

definition best_key :: "(string, real) dict \<Rightarrow> real \<Rightarrow> string option" where
  "best_key d v = find (\<lambda>s. dict_get d s = Some v) (dict_keys d)"

definition get_best_speaker :: "Cluster \<Rightarrow> py_error + (string \<times> Cluster)" where
  "get_best_speaker c =
     (let max_val = - 33 in
      case py_max (dict_values (speakers c)) of
        Inl err \<Rightarrow> Inl err
      | Inr v \<Rightarrow>
          let s1 = ''unknown'';
              s2 = (if v > max_val
                    then (case best_key (speakers c) v of Some s \<Rightarrow> s | None \<Rightarrow> s1)
                    else s1)
          in (case get_distance c of
                Inl err \<Rightarrow> Inl err
              | Inr d \<Rightarrow>
                  let s3 = (if d < float_0_1 then ''unknown'' else s2)
                  in Inr (s3, c\<lparr>value_attr := Some v, speaker := Some s3\<rparr>)))"

section \<open>Text files: segmentation artifacts\<close>

subsection \<open>The string operations the program uses\<close>

text \<open>
  The whitespace of Python 2's \<^verbatim>\<open>str.split()\<close> and \<^verbatim>\<open>str.strip()\<close>: space, tab, line feed,
  vertical tab, form feed and carriage return.
\<close>

definition is_space :: "char \<Rightarrow> bool" where
  "is_space ch = (ch \<in> set [CHR '' '', CHR 0x09, CHR 0x0A, CHR 0x0B, CHR 0x0C, CHR 0x0D])"

definition newline :: char where
  "newline = CHR 0x0A"

text \<open>\<^verbatim>\<open>s.startswith(p)\<close>.\<close>

definition startswith :: "string \<Rightarrow> string \<Rightarrow> bool" where
  "startswith s p = (take (length p) s = p)"

text \<open>
  \<^verbatim>\<open>s.split()\<close>: the maximal runs of characters that are not whitespace. \<open>split_ws_from\<close>
  carries the run read so far.
\<close>

fun split_ws_from :: "string \<Rightarrow> string \<Rightarrow> string list" where
  "split_ws_from cur [] = (if cur = [] then [] else [cur])"
| "split_ws_from cur (ch # s) =
     (if is_space ch then (if cur = [] then split_ws_from [] s else cur # split_ws_from [] s)
      else split_ws_from (cur @ [ch]) s)"

definition split_ws :: "string \<Rightarrow> string list" where
  "split_ws s = split_ws_from [] s"

text \<open>\<^verbatim>\<open>s.split(sep)\<close> for a one-character separator: always at least one piece.\<close>

fun split_on_from :: "char \<Rightarrow> string \<Rightarrow> string \<Rightarrow> string list" where
  "split_on_from sep cur [] = [cur]"
| "split_on_from sep cur (ch # s) =
     (if ch = sep then cur # split_on_from sep [] s else split_on_from sep (cur @ [ch]) s)"

definition split_on :: "char \<Rightarrow> string \<Rightarrow> string list" where
  "split_on sep s = split_on_from sep [] s"

text \<open>
  \<^verbatim>\<open>f.readlines()\<close> and \<^verbatim>\<open>for l in f\<close>: the lines of the file, each with its line feed; the
  last line has none when the file does not end in one.
\<close>

fun readlines_from :: "string \<Rightarrow> string \<Rightarrow> string list" where
  "readlines_from cur [] = (if cur = [] then [] else [cur])"
| "readlines_from cur (ch # s) =
     (if ch = newline then (cur @ [ch]) # readlines_from [] s
      else readlines_from (cur @ [ch]) s)"

definition readlines :: "string \<Rightarrow> string list" where
  "readlines s = readlines_from [] s"

text \<open>
  \<^verbatim>\<open>s.replace(old, new)\<close>: the occurrences of \<open>old\<close> are replaced from the left, without
  overlap. With an empty \<open>old\<close>, Python puts \<open>new\<close> before every character and at the end.
\<close>

function replace_from :: "string \<Rightarrow> string \<Rightarrow> string \<Rightarrow> string" where
  "replace_from old new [] = []"
| "replace_from old new (ch # s) =
     (if old \<noteq> [] \<and> startswith (ch # s) old
      then new @ replace_from old new (drop (length old) (ch # s))
      else ch # replace_from old new s)"
  by pat_completeness auto
termination
  by (relation "measure (\<lambda>(old, new, s). length s)") (auto simp: startswith_def)

definition replace :: "string \<Rightarrow> string \<Rightarrow> string \<Rightarrow> string" where
  "replace s old new =
     (if old = [] then new @ concat (map (\<lambda>ch. ch # new) s) else replace_from old new s)"

text \<open>The decimal digits: the value of a digit character, and the character of a digit.\<close>

definition digits :: string where
  "digits = ''0123456789''"

definition digit_val :: "char \<Rightarrow> nat option" where
  "digit_val ch = map_of (zip digits [0 ..< 10]) ch"

definition digit_char :: "nat \<Rightarrow> char" where
  "digit_char n = digits ! (n mod 10)"

text \<open>The value of a string of digits, read from the left; \<open>None\<close> when a character is no digit.\<close>

fun digits_val :: "nat \<Rightarrow> string \<Rightarrow> nat option" where
  "digits_val acc [] = Some acc"
| "digits_val acc (ch # s) =
     (case digit_val ch of None \<Rightarrow> None | Some dv \<Rightarrow> digits_val (10 * acc + dv) s)"

text \<open>
  \<^verbatim>\<open>int(s)\<close> of a string, base ten: surrounding whitespace is dropped, one sign is allowed,
  and at least one digit must follow; anything else raises \<^verbatim>\<open>ValueError\<close>.
\<close>

definition strip :: "string \<Rightarrow> string" where
  "strip s = rev (dropWhile is_space (rev (dropWhile is_space s)))"

definition unsigned_int :: "string \<Rightarrow> py_error + int" where
  "unsigned_int s =
     (if s = [] then Inl ValueError
      else case digits_val 0 s of None \<Rightarrow> Inl ValueError | Some n \<Rightarrow> Inr (int n))"

definition py_int :: "string \<Rightarrow> py_error + int" where
  "py_int s =
     (case strip s of
        [] \<Rightarrow> Inl ValueError
      | ch # r \<Rightarrow>
          if ch = CHR ''-'' then map_sum id uminus (unsigned_int r)
          else if ch = CHR ''+'' then unsigned_int r
          else unsigned_int (ch # r))"

text \<open>\<^verbatim>\<open>str(n)\<close> of an integer: its decimal digits, with a minus sign when negative.\<close>

function str_nat :: "nat \<Rightarrow> string" where
  "str_nat n = (if n < 10 then [digit_char n] else str_nat (n div 10) @ [digit_char (n mod 10)])"
  by pat_completeness auto
termination
  by (relation "measure id") auto

declare str_nat.simps [simp del]

definition str_int :: "int \<Rightarrow> string" where
  "str_int i = (if i < 0 then CHR ''-'' # str_nat (nat (- i)) else str_nat (nat i))"

subsection \<open>Segments\<close>

text \<open>\<^verbatim>\<open>int(x)\<close> and \<^verbatim>\<open>'%s' % x\<close> of a field.\<close>

fun field_int :: "field \<Rightarrow> py_error + int" where
  "field_int (FStr s) = py_int s"
| "field_int (FInt i) = Inr i"

fun field_str :: "field \<Rightarrow> string" where
  "field_str (FStr s) = s"
| "field_str (FInt i) = str_int i"

text \<open>\<^verbatim>\<open>int(line[3])\<close>: the duration of a segment.\<close>

definition seg_duration :: "field list \<Rightarrow> py_error + int" where
  "seg_duration line = (if length line \<le> 3 then Inl IndexError else field_int (line ! 3))"

subsection \<open>\<^verbatim>\<open>extract_clusters\<close>\<close>

text \<open>
  \<^verbatim>\<open>
  def extract_clusters(filename, clusters):
      f = open(filename,"r")
      last_cluster = None
      for l in f:
           if l.startswith(";;") :
              speaker_id = l.split()[1].split(':')[1]
              clusters[ speaker_id ] = Cluster(name=speaker_id, gender='U', frames=0)
              last_cluster = clusters[ speaker_id ]
              last_cluster.seg_header = l
           else:
              line = l.split()
              last_cluster.segments.append(line)
              last_cluster.frames += int(line[3])
              last_cluster.gender =  line[4]
              last_cluster.e =  line[5]
      f.close()
  \<close>
  \<^verbatim>\<open>last_cluster\<close> is a reference to the object stored in \<^verbatim>\<open>clusters\<close> under the latest
  \<^verbatim>\<open>speaker_id\<close>; the model keeps that key and writes the cluster back under it. The file
  is given by its text.
\<close>

definition header_id :: "string \<Rightarrow> py_error + string" where
  "header_id l =
     (let toks = split_ws l in
      if length toks \<le> 1 then Inl IndexError
      else let parts = split_on CHR '':'' (toks ! 1) in
        if length parts \<le> 1 then Inl IndexError else Inr (parts ! 1))"

type_synonym parse_state = "(string, Cluster) dict \<times> string option"

definition extract_line :: "parse_state \<Rightarrow> string \<Rightarrow> py_error + parse_state" where
  "extract_line st l =
     (case st of (clusters, last_cluster) \<Rightarrow>
        if startswith l '';;'' then
          (case header_id l of
             Inl err \<Rightarrow> Inl err
           | Inr speaker_id \<Rightarrow>
               Inr (dict_set clusters speaker_id
                      ((Cluster_init speaker_id ''U'' 0)\<lparr>seg_header := Some l\<rparr>),
                    Some speaker_id))
        else
          (let line = split_ws l in
           case last_cluster of
             None \<Rightarrow> Inl AttributeError
           | Some k \<Rightarrow>
               (case dict_get clusters k of
                  None \<Rightarrow> Inl KeyError
                | Some lc \<Rightarrow>
                    (case seg_duration (map FStr line) of
                       Inl err \<Rightarrow> Inl err
                     | Inr dur \<Rightarrow>
                         if length line \<le> 5 then Inl IndexError
                         else Inr (dict_set clusters k
                                     (lc\<lparr>segments := segments lc @ [map FStr line],
                                        frames := frames lc + dur,
                                        gender := line ! 4,
                                        e := Some (line ! 5)\<rparr>),
                                   Some k)))))"

fun extract_lines :: "parse_state \<Rightarrow> string list \<Rightarrow> py_error + parse_state" where
  "extract_lines st [] = Inr st"
| "extract_lines st (l # ls) =
     (case extract_line st l of Inl err \<Rightarrow> Inl err | Inr st' \<Rightarrow> extract_lines st' ls)"

definition extract_clusters ::
  "string \<Rightarrow> (string, Cluster) dict \<Rightarrow> py_error + (string, Cluster) dict" where
  "extract_clusters text clusters = map_sum id fst (extract_lines (clusters, None) (readlines text))"

subsection \<open>\<^verbatim>\<open>Cluster.generate_seg_file\<close>\<close>

text \<open>
  \<^verbatim>\<open>
  def generate_seg_file(self, filename):
      f = open(filename,'w')
      f.write(self.seg_header)
      start_time = 0
      for line in self.segments:
          line[2]=start_time
          start_time+=int(line[3])
          f.write("%s %s %s %s %s %s %s %s\n" % tuple(line) )
      f.close()
  \<close>
  The result is the text written and the cluster with its segments as the loop leaves them.
  The format has eight places: a line of another length raises \<^verbatim>\<open>TypeError\<close>, as does
  writing a header that is \<^verbatim>\<open>None\<close>.
\<close>

fun unwords :: "string list \<Rightarrow> string" where
  "unwords [] = []"
| "unwords [w] = w"
| "unwords (w # v # ws) = w @ CHR '' '' # unwords (v # ws)"

definition format_line :: "field list \<Rightarrow> py_error + string" where
  "format_line line =
     (if length line \<noteq> 8 then Inl TypeError
      else Inr (unwords (map field_str line) @ [newline]))"

fun write_segments :: "int \<Rightarrow> field list list \<Rightarrow> py_error + (string \<times> field list list)" where
  "write_segments start_time [] = Inr ([], [])"
| "write_segments start_time (line # rest) =
     (if length line \<le> 2 then Inl IndexError
      else
        (case seg_duration (line[2 := FInt start_time]) of
           Inl err \<Rightarrow> Inl err
         | Inr dur \<Rightarrow>
             (case format_line (line[2 := FInt start_time]) of
                Inl err \<Rightarrow> Inl err
              | Inr written \<Rightarrow>
                  (case write_segments (start_time + dur) rest of
                     Inl err \<Rightarrow> Inl err
                   | Inr (out, rest') \<Rightarrow>
                       Inr (written @ out, line[2 := FInt start_time] # rest')))))"

definition generate_seg_file :: "Cluster \<Rightarrow> py_error + (string \<times> Cluster)" where
  "generate_seg_file c =
     (case seg_header c of
        None \<Rightarrow> Inl TypeError
      | Some header \<Rightarrow>
          (case write_segments 0 (segments c) of
             Inl err \<Rightarrow> Inl err
           | Inr (out, segs) \<Rightarrow> Inr (header @ out, c\<lparr>segments := segs\<rparr>)))"

subsection \<open>\<^verbatim>\<open>ident_seg\<close>\<close>

text \<open>
  \<^verbatim>\<open>
  def ident_seg(showname,name):
      f = open(showname+'.seg','r')
      clusters=[]
      lines = f.readlines()
      for line in lines:
          for k in line.split():
              if k.startswith('cluster:'):
                  prefix,c = k.split(':')
                  clusters.append(c)
      f.close()
      output = open(showname+'.ident.seg', 'w')
      clusters.reverse()
      for line in lines:
          for c in clusters:
              line = line.replace(c,name)
          output.write(line+'\n')
      output.close()
      ensure_file_exists(showname+'.ident.seg')
  \<close>
  The model takes the text of \<^verbatim>\<open>showname.seg\<close> and returns the text of
  \<^verbatim>\<open>showname.ident.seg\<close>. \<^verbatim>\<open>prefix,c = ...\<close> raises \<^verbatim>\<open>ValueError\<close> unless the token has
  exactly one colon; \<^verbatim>\<open>ensure_file_exists\<close> raises when the file written is empty.
\<close>

fun collect_tokens :: "string list \<Rightarrow> string list \<Rightarrow> py_error + string list" where
  "collect_tokens clusters [] = Inr clusters"
| "collect_tokens clusters (k # ks) =
     (if startswith k ''cluster:'' then
        (case split_on CHR '':'' k of
           [pre, c] \<Rightarrow> collect_tokens (clusters @ [c]) ks
         | _ \<Rightarrow> Inl ValueError)
      else collect_tokens clusters ks)"

fun collect_clusters :: "string list \<Rightarrow> string list \<Rightarrow> py_error + string list" where
  "collect_clusters clusters [] = Inr clusters"
| "collect_clusters clusters (line # lines) =
     (case collect_tokens clusters (split_ws line) of
        Inl err \<Rightarrow> Inl err
      | Inr clusters' \<Rightarrow> collect_clusters clusters' lines)"

definition relabel_line :: "string list \<Rightarrow> string \<Rightarrow> string \<Rightarrow> string" where
  "relabel_line clusters nm line = fold (\<lambda>c l. replace l c nm) clusters line"

definition ident_seg :: "string \<Rightarrow> string \<Rightarrow> py_error + string" where
  "ident_seg text nm =
     (let lines = readlines text in
      case collect_clusters [] lines of
        Inl err \<Rightarrow> Inl err
      | Inr clusters \<Rightarrow>
          (let output = concat (map (\<lambda>line. relabel_line (rev clusters) nm line @ [newline]) lines)
           in if output = [] then Inl FileCheckError else Inr output))"

text \<open>
  \<^verbatim>\<open>sum(int(line[3]) for line in segments)\<close>: the sum of the durations of a list of segments,
  the quantity the attribute \<^verbatim>\<open>frames\<close> is compared with.
\<close>

fun sum_durations :: "field list list \<Rightarrow> py_error + int" where
  "sum_durations [] = Inr 0"
| "sum_durations (line # rest) =
     (case seg_duration line of
        Inl err \<Rightarrow> Inl err
      | Inr dur \<Rightarrow> map_sum id (\<lambda>s. dur + s) (sum_durations rest))"

section \<open>Enrollment: naming and storing a new model\<close>

text \<open>
  One gender partition of the model database (\<^verbatim>\<open>os.path.join(db_dir, gender)\<close>) is a
  dictionary from file names to model artifacts, which are opaque (\<open>'a\<close>); the working
  directory is the list of its file names. Speaker names are plain file names, without a
  directory separator, so \<^verbatim>\<open>os.path.join(folder_db_dir, n)\<close> is the entry \<open>n\<close> of the
  partition, and the two directories are different ones.
\<close>

text \<open>
  The naming part of \<^verbatim>\<open>extract_speakers\<close>:
  \<^verbatim>\<open>
  cont = 0
  gmm_name = speakers[c]+".gmm"
  if os.path.exists( os.path.join(folder_db_dir,gmm_name)):
      while True:
          cont = cont +1
          gmm_name = speakers[c]+""+str(cont)+".gmm"
          wav_name = speakers[c]+""+str(cont)+".wav"
          if not os.path.exists( os.path.join(folder_db_dir,gmm_name)) and not os.path.exists( wav_name ):
              break
  basename_gmm, extension_gmm = os.path.splitext(gmm_name)
  \<close>
  \<open>probe\<close> is the \<^verbatim>\<open>while True\<close> loop, entered with the current \<^verbatim>\<open>cont\<close>; it returns the
  value of \<^verbatim>\<open>cont\<close> at the \<^verbatim>\<open>break\<close>, and \<open>None\<close> stands for a loop that never breaks.
\<close>

definition gmm_name_of :: "string \<Rightarrow> nat \<Rightarrow> string" where
  "gmm_name_of nm cont = nm @ str_int (int cont) @ ''.gmm''"

definition wav_name_of :: "string \<Rightarrow> nat \<Rightarrow> string" where
  "wav_name_of nm cont = nm @ str_int (int cont) @ ''.wav''"

partial_function (option) probe :: "string \<Rightarrow> (string, 'a) dict \<Rightarrow> string list \<Rightarrow> nat \<Rightarrow> nat option" where
  "probe nm db cwd cont =
     (if \<not> has_key db (gmm_name_of nm (cont + 1)) \<and> wav_name_of nm (cont + 1) \<notin> set cwd
      then Some (cont + 1)
      else probe nm db cwd (cont + 1))"

declare probe.simps [code]

definition choose_gmm_name :: "string \<Rightarrow> (string, 'a) dict \<Rightarrow> string list \<Rightarrow> string option" where
  "choose_gmm_name nm db cwd =
     (if has_key db (nm @ ''.gmm'')
      then map_option (gmm_name_of nm) (probe nm db cwd 0)
      else Some (nm @ ''.gmm''))"

text \<open>
  \<^verbatim>\<open>os.path.splitext\<close> of a plain file name: the extension starts at the last dot, unless
  only dots come before it.
\<close>

definition splitext :: "string \<Rightarrow> string \<times> string" where
  "splitext p =
     (let ext = rev (takeWhile (\<lambda>ch. ch \<noteq> CHR ''.'') (rev p)) in
      if length ext = length p then (p, [])
      else let root = take (length p - length ext - 1) p in
        if list_all (\<lambda>ch. ch = CHR ''.'') root then (p, []) else (root, CHR ''.'' # ext))"

text \<open>
  \<^verbatim>\<open>shutil.move(src, dir)\<close> into an existing directory: the destination is the entry of the
  directory named like the source, and the move raises \<^verbatim>\<open>shutil.Error\<close> when that entry
  exists.
\<close>

definition shutil_move_into :: "(string, 'a) dict \<Rightarrow> string \<Rightarrow> 'a \<Rightarrow> py_error + (string, 'a) dict" where
  "shutil_move_into db fname art =
     (if has_key db fname then Inl ShutilError else Inr (dict_set db fname art))"

text \<open>
  \<^verbatim>\<open>
  def build_and_store_gmm(self, show):
      oldshow = self.wave[:-4]
      shutil.copy(oldshow+'.wav', show+'.wav')
      shutil.copy(oldshow+'.mfcc', show+'.mfcc')
      shutil.copy(oldshow+'.seg', show+'.seg')
      ident_seg(show, self.speaker)
      train_init(show)
      train_map(show)
      ensure_file_exists(show+".gmm")
      shutil.move(show+'.gmm', os.path.join(db_dir,self.gender) )
  \<close>
  The copies and the two training programs work in the working directory and are external:
  \<open>trained\<close> is the model file \<^verbatim>\<open>show.gmm\<close> they leave there, \<open>None\<close> when a step fails. The
  database is touched by the last line only.
\<close>

definition build_and_store_gmm ::
  "string \<Rightarrow> 'a option \<Rightarrow> (string, 'a) dict \<Rightarrow> py_error + (string, 'a) dict" where
  "build_and_store_gmm show trained db =
     (case trained of
        None \<Rightarrow> Inl SubprocessError
      | Some art \<Rightarrow> shutil_move_into db (show @ ''.gmm'') art)"

text \<open>
  One enrollment: the name is chosen, then the model is built and stored under
  \<^verbatim>\<open>basename_gmm\<close>. The result is the name of the stored file and the new database; the
  outer \<open>None\<close> is a naming loop that never ends.
\<close>

definition enroll ::
  "string \<Rightarrow> (string, 'a) dict \<Rightarrow> string list \<Rightarrow> 'a option \<Rightarrow>
     (py_error + (string \<times> (string, 'a) dict)) option" where
  "enroll nm db cwd trained =
     (case choose_gmm_name nm db cwd of
        None \<Rightarrow> None
      | Some gmm_name \<Rightarrow>
          (let basename_gmm = fst (splitext gmm_name) in
           Some (map_sum id (\<lambda>db'. (basename_gmm @ ''.gmm'', db'))
                   (build_and_store_gmm basename_gmm trained db))))"

section \<open>The scoring phase: dispatching the matching jobs\<close>

text \<open>
  \<^verbatim>\<open>
  p = {}
  ...
  for cluster in clusters:
      files = files_in_db[clusters[cluster].gender]
      showname = os.path.join(basename,cluster)
      for f in files:
          if  len(active_children()) < cpus :
              p[f+cluster] = Process(target=mfcc_vs_gmm, args=( showname, f, clusters[cluster].gender) )
              p[f+cluster].start()
          else:
              while len(active_children()) >= cpus:
                  time.sleep(1)
              p[f+cluster] = Process(target=mfcc_vs_gmm, args=( showname, f, clusters[cluster].gender ) )
              p[f+cluster].start()
  for proc in p:
      if p[proc].is_alive():
          p[proc].join()
  \<close>
  The parent and its child processes run interleaved, so the fragment is a transition
  system. A job is a pair of a model file and a cluster; the two nested loops visit the
  jobs in some order, the list \<open>sched_todo\<close>. \<open>sched_alive\<close> is \<^verbatim>\<open>active_children()\<close>, the
  jobs started and not yet ended; \<open>sched_procs\<close> is the dictionary \<^verbatim>\<open>p\<close>; \<open>sched_joinq\<close> is what
  \<^verbatim>\<open>for proc in p\<close> has still to visit.
\<close>

datatype job = Job (job_file: string) (job_cluster: string)

definition job_key :: "job \<Rightarrow> string" where
  "job_key j = job_file j @ job_cluster j"

text \<open>
  Where the parent stands: before the test of a job (\<open>AtCheck\<close>), in the polling loop
  (\<open>AtPoll\<close>), before one of the two \<^verbatim>\<open>Process(...).start()\<close> (\<open>AtStart\<close>), in the joining loop
  (\<open>AtJoin\<close>), and past it, where the results are read and the identities resolved
  (\<open>AtResolve\<close>).
\<close>

datatype sched_pc = AtCheck | AtPoll | AtStart | AtJoin | AtResolve

record sched =
  sched_pc :: sched_pc
  sched_todo :: "job list"
  sched_alive :: "job list"
  sched_procs :: "(string, job) dict"
  sched_joinq :: "job list"

definition sched_init :: "job list \<Rightarrow> sched" where
  "sched_init jobs =
     \<lparr> sched_pc = AtCheck, sched_todo = jobs, sched_alive = [], sched_procs = [],
       sched_joinq = [] \<rparr>"

text \<open>
  One step of the system with \<open>cpus\<close> processing units. A child may end at any moment
  (\<open>child_ends\<close>); every other step is the parent's. \<^verbatim>\<open>join()\<close> returns only when the process
  has ended, and \<^verbatim>\<open>is_alive()\<close> skips it then, so the joining loop passes a process only
  when it is not alive. Python 2 walks a dictionary in the order of its hash table, so the
  joining loop may visit the processes of \<^verbatim>\<open>p\<close> in any order (\<open>loops_end\<close>).
\<close>

inductive sched_step :: "nat \<Rightarrow> sched \<Rightarrow> sched \<Rightarrow> bool" for cpus :: nat where
  child_ends:
    "j \<in> set (sched_alive s) \<Longrightarrow>
     sched_step cpus s (s\<lparr>sched_alive := remove1 j (sched_alive s)\<rparr>)"
| test_below:
    "sched_pc s = AtCheck \<Longrightarrow> sched_todo s = j # js \<Longrightarrow> length (sched_alive s) < cpus \<Longrightarrow>
     sched_step cpus s (s\<lparr>sched_pc := AtStart\<rparr>)"
| test_full:
    "sched_pc s = AtCheck \<Longrightarrow> sched_todo s = j # js \<Longrightarrow> \<not> length (sched_alive s) < cpus \<Longrightarrow>
     sched_step cpus s (s\<lparr>sched_pc := AtPoll\<rparr>)"
| poll_sleep:
    "sched_pc s = AtPoll \<Longrightarrow> cpus \<le> length (sched_alive s) \<Longrightarrow>
     sched_step cpus s s"
| poll_leave:
    "sched_pc s = AtPoll \<Longrightarrow> \<not> cpus \<le> length (sched_alive s) \<Longrightarrow>
     sched_step cpus s (s\<lparr>sched_pc := AtStart\<rparr>)"
| start:
    "sched_pc s = AtStart \<Longrightarrow> sched_todo s = j # js \<Longrightarrow>
     sched_step cpus s
       (s\<lparr>sched_pc := AtCheck, sched_todo := js, sched_alive := j # sched_alive s,
          sched_procs := dict_set (sched_procs s) (job_key j) j\<rparr>)"
| loops_end:
    "sched_pc s = AtCheck \<Longrightarrow> sched_todo s = [] \<Longrightarrow> mset q = mset (dict_values (sched_procs s)) \<Longrightarrow>
     sched_step cpus s (s\<lparr>sched_pc := AtJoin, sched_joinq := q\<rparr>)"
| join_next:
    "sched_pc s = AtJoin \<Longrightarrow> sched_joinq s = j # js \<Longrightarrow> j \<notin> set (sched_alive s) \<Longrightarrow>
     sched_step cpus s (s\<lparr>sched_joinq := js\<rparr>)"
| join_end:
    "sched_pc s = AtJoin \<Longrightarrow> sched_joinq s = [] \<Longrightarrow>
     sched_step cpus s (s\<lparr>sched_pc := AtResolve\<rparr>)"

text \<open>The states the scoring phase can be in, for a list of jobs.\<close>

inductive sched_reachable :: "nat \<Rightarrow> job list \<Rightarrow> sched \<Rightarrow> bool" for cpus :: nat and jobs :: "job list" where
  initial: "sched_reachable cpus jobs (sched_init jobs)"
| after: "sched_reachable cpus jobs s \<Longrightarrow> sched_step cpus s s' \<Longrightarrow> sched_reachable cpus jobs s'"

subsection \<open>The invariant of the cluster dictionary\<close>

text \<open>Every cluster of the dictionary has \<^verbatim>\<open>frames\<close> equal to the sum of its durations.\<close>

definition frames_inv :: "(string, Cluster) dict \<Rightarrow> bool" where
  "frames_inv cs = list_all (\<lambda>(k, c). sum_durations (segments c) = Inr (frames c)) cs"

text \<open>
  Index \<open>k\<close> is taken when the partition has the model file with that suffix or the working
  directory has the wave file with it: the condition under which the naming loop goes on.
\<close>

definition taken :: "string \<Rightarrow> (string, 'a) dict \<Rightarrow> string list \<Rightarrow> nat \<Rightarrow> bool" where
  "taken nm db cwd k = (has_key db (gmm_name_of nm k) \<or> wav_name_of nm k \<in> set cwd)"


subsection \<open>The invariants of the scoring phase\<close>

text \<open>
  At most \<open>cpus\<close> children are alive, and strictly fewer whenever the parent stands before a
  \<^verbatim>\<open>start()\<close>: both ways into \<open>AtStart\<close> have just seen \<^verbatim>\<open>len(active_children()) < cpus\<close>,
  and only the parent starts children.
\<close>

definition sched_bound :: "nat \<Rightarrow> sched \<Rightarrow> bool" where
  "sched_bound cpus s =
     (length (sched_alive s) \<le> cpus \<and>
      (sched_pc s = AtStart \<longrightarrow> length (sched_alive s) < cpus))"

text \<open>
  While the jobs are being dispatched, the jobs already started are a prefix of the list, the
  rest is still to do, every child alive is one of the started jobs, and the dictionary
  \<^verbatim>\<open>p\<close> holds every started job under its key \<^verbatim>\<open>f+cluster\<close>.
\<close>

definition sched_dispatched :: "job list \<Rightarrow> sched \<Rightarrow> bool" where
  "sched_dispatched jobs s =
     (\<exists>started. jobs = started @ sched_todo s \<and> set (sched_alive s) \<subseteq> set started \<and>
        (\<forall>j \<in> set started. dict_get (sched_procs s) (job_key j) = Some j))"

text \<open>
  In the joining loop every child alive is still to be visited; past it no child is alive.
\<close>

definition sched_joined :: "job list \<Rightarrow> sched \<Rightarrow> bool" where
  "sched_joined jobs s =
     (case sched_pc s of
        AtJoin \<Rightarrow> set (sched_alive s) \<subseteq> set (sched_joinq s)
      | AtResolve \<Rightarrow> sched_alive s = []
      | _ \<Rightarrow> sched_dispatched jobs s)"

section \<open>Properties of the double precision model\<close>

text \<open>
  An integer is its own rounding; the unit in the last place follows from the binade; a
  number that is an integer multiple of its unit is a double and rounds to itself.
\<close>

lemma round_even_of_int: "round_even (of_int n) = n"
  by (simp add: round_even_def)

lemma float_round_0: "float_round 0 = 0"
  by (simp add: float_round_def)

lemma float_sub_self: "float_sub x x = 0"
  by (simp add: float_sub_def float_round_0)

lemma ulp_exp_eqI:
  assumes "2 powi k \<le> \<bar>x\<bar>" and "\<bar>x\<bar> < 2 powi (k + 1)"
  shows "ulp_exp x = max (k - 52) (- 1074)"
proof -
  have pos: "0 < \<bar>x\<bar>"
  proof -
    have "(0::real) < 2 powi k" by simp
    with assms(1) show ?thesis by linarith
  qed
  have p1: "(2::real) powr (of_int k) = 2 powi k" by (rule powr_real_of_int') simp_all
  have p2: "(2::real) powr (of_int (k + 1)) = 2 powi (k + 1)" by (rule powr_real_of_int') simp_all
  have "\<lfloor>log 2 \<bar>x\<bar>\<rfloor> = k"
    using floor_log_eq_powr_iff[of "\<bar>x\<bar>" 2 k] pos assms p1 p2 by simp
  then show ?thesis by (simp add: ulp_exp_def)
qed

lemma float_round_eval:
  assumes "x \<noteq> 0" and "ulp_exp x = u"
  shows "float_round x = of_int (round_even (x / 2 powi u)) * 2 powi u"
  using assms by (simp add: float_round_def)

lemma float_round_exact:
  assumes "ulp_exp x = u" and "x / 2 powi u = of_int n"
  shows "float_round x = x"
proof (cases "x = 0")
  case True then show ?thesis by (simp add: float_round_0)
next
  case False
  have nz: "(2::real) powi u \<noteq> 0" by simp
  from float_round_eval[OF False assms(1)] assms(2)
  have "float_round x = of_int n * 2 powi u" by (simp only: round_even_of_int)
  also have "\<dots> = (x / 2 powi u) * 2 powi u" by (simp only: assms(2))
  also have "\<dots> = x" using nz by simp
  finally show ?thesis .
qed

text \<open>
  Rounding never takes a number that is at least one tenth below the double \<^verbatim>\<open>.1\<close>: a
  difference of at least one tenth in exact arithmetic is a computed distance that is not
  below \<^verbatim>\<open>.1\<close>.
\<close>

lemma round_even_ge:
  assumes "of_int n - 1 / 2 < w"
  shows "n \<le> round_even w"
proof (cases "n \<le> \<lfloor>w\<rfloor>")
  case True
  have "\<lfloor>w\<rfloor> \<le> round_even w" by (simp add: round_even_def Let_def)
  with True show ?thesis by linarith
next
  case False
  then have f: "\<lfloor>w\<rfloor> \<le> n - 1" by linarith
  have "w < of_int \<lfloor>w\<rfloor> + 1" by linarith
  with assms have "of_int n - 1 / 2 < (of_int \<lfloor>w\<rfloor> :: real) + 1" by linarith
  then have "of_int n < (of_int (\<lfloor>w\<rfloor> + 2) :: real)" by simp
  then have "n < \<lfloor>w\<rfloor> + 2" by (simp only: of_int_less_iff)
  with f have eq: "\<lfloor>w\<rfloor> = n - 1" by linarith
  then have "(of_int \<lfloor>w\<rfloor> :: real) = of_int n - 1" by simp
  with assms have "1 / 2 < w - of_int \<lfloor>w\<rfloor>" by linarith
  then have "round_even w = \<lfloor>w\<rfloor> + 1" by (simp add: round_even_def Let_def)
  with eq show ?thesis by simp
qed

lemma round_even_lower: "w - 1 / 2 \<le> of_int (round_even w)"
proof -
  have fl: "of_int \<lfloor>w\<rfloor> \<le> w" "w < of_int \<lfloor>w\<rfloor> + 1" by linarith+
  consider "w - of_int \<lfloor>w\<rfloor> < 1 / 2" | "1 / 2 < w - of_int \<lfloor>w\<rfloor>" | "w - of_int \<lfloor>w\<rfloor> = 1 / 2"
    by linarith
  then show ?thesis
  proof cases
    case 1
    then have "round_even w = \<lfloor>w\<rfloor>" by (simp add: round_even_def Let_def)
    then have "(of_int (round_even w) :: real) = of_int \<lfloor>w\<rfloor>" by simp
    with 1 show ?thesis by linarith
  next
    case 2
    then have "round_even w = \<lfloor>w\<rfloor> + 1" by (simp add: round_even_def Let_def)
    then have "(of_int (round_even w) :: real) = of_int \<lfloor>w\<rfloor> + 1" by simp
    with fl show ?thesis by linarith
  next
    case 3
    then have "\<lfloor>w\<rfloor> \<le> round_even w" by (simp add: round_even_def Let_def)
    then have "(of_int \<lfloor>w\<rfloor> :: real) \<le> of_int (round_even w)" by (simp only: of_int_le_iff)
    with 3 show ?thesis by linarith
  qed
qed

lemma float_round_ge_tenth:
  assumes "1 / 10 \<le> z"
  shows "float_0_1 \<le> float_round z"
proof -
  have zpos: "0 < z" using assms by simp
  define k where "k = \<lfloor>log 2 \<bar>z\<bar>\<rfloor>"
  have p1: "(2::real) powr (of_int k) = 2 powi k" by (rule powr_real_of_int') simp_all
  have p2: "(2::real) powr (of_int (k + 1)) = 2 powi (k + 1)" by (rule powr_real_of_int') simp_all
  have "2 powr (of_int k) \<le> \<bar>z\<bar> \<and> \<bar>z\<bar> < 2 powr (of_int k + 1)"
    using floor_log_eq_powr_iff[of "\<bar>z\<bar>" 2 k] zpos by (simp add: k_def)
  then have lo: "2 powi k \<le> z" and hi: "z < 2 powi (k + 1)"
    using p1 p2 zpos by simp_all
  have kge: "- 4 \<le> k"
  proof (rule ccontr)
    assume "\<not> - 4 \<le> k"
    then have "k + 1 \<le> - 4" by simp
    then have "(2::real) powi (k + 1) \<le> 2 powi (- 4)" by (intro power_int_increasing) simp_all
    with hi have "z < 1 / 16" by simp
    with assms show False by simp
  qed
  have u: "ulp_exp z = k - 52"
    using ulp_exp_eqI[of k z] lo hi zpos kge by simp
  have znz: "z \<noteq> 0" using zpos by simp
  note fr = float_round_eval[OF znz u]
  have upos: "(0::real) < 2 powi (k - 52)" by simp
  show ?thesis
  proof (cases "k = - 4")
    case True
    have uu: "(2::real) powi (k - 52) = 1 / 2 ^ 56" using True by simp
    have "(7205759403792794::real) - 1 / 2 < z / (1 / 2 ^ 56)" using assms by simp
    then have "of_int 7205759403792794 - 1 / 2 < z / (1 / 2 ^ 56)" by simp
    then have "7205759403792794 \<le> round_even (z / (1 / 2 ^ 56))" by (rule round_even_ge)
    then have "(7205759403792794::real) \<le> of_int (round_even (z / (1 / 2 ^ 56)))" by simp
    then have "7205759403792794 * (1 / 2 ^ 56) \<le> of_int (round_even (z / (1 / 2 ^ 56))) * (1 / 2 ^ 56 :: real)"
      by (intro mult_right_mono) simp_all
    then show ?thesis unfolding fr uu by (simp add: float_0_1_def)
  next
    case False
    with kge have "- 3 \<le> k" by simp
    then have "(2::real) powi (- 3) \<le> 2 powi k" by (intro power_int_increasing) simp_all
    with lo have z8: "1 / 8 \<le> z" by simp
    have usplit: "(2::real) powi (k - 52) = 2 powi k / 2 ^ 52"
      by (simp add: power_int_diff)
    have ule: "(2::real) powi (k - 52) \<le> z / 2 ^ 52"
      unfolding usplit using lo by (simp add: divide_right_mono)
    define v :: real where "v = 2 powi (k - 52)"
    have vpos: "0 < v" using upos by (simp add: v_def)
    have "z / v - 1 / 2 \<le> of_int (round_even (z / v))"
      by (rule round_even_lower)
    then have "(z / v - 1 / 2) * v \<le> of_int (round_even (z / v)) * v"
      using vpos by (intro mult_right_mono) simp_all
    moreover have "(z / v - 1 / 2) * v = z - v / 2"
      using vpos by (simp add: field_simps)
    ultimately have "z - v / 2 \<le> of_int (round_even (z / v)) * v" by simp
    then have "z - v / 2 \<le> float_round z" unfolding fr v_def .
    moreover have "v \<le> z / 2 ^ 52" using ule by (simp add: v_def)
    ultimately have "z - z / 2 ^ 53 \<le> float_round z" by simp
    with z8 show ?thesis by (simp add: float_0_1_def)
  qed
qed

lemma float_sub_ge_tenth:
  "1 / 10 \<le> x - y \<Longrightarrow> float_0_1 \<le> float_sub x y"
  by (simp add: float_sub_def float_round_ge_tenth)

text \<open>
  The differences used below. The last two are the same fact from the other side: the
  difference of the doubles \<open>0.13125\<close> and \<open>0.03125000000000001\<close> lies exactly half way
  between two doubles and below one tenth, and rounds (to even) up to the double \<^verbatim>\<open>.1\<close>.
\<close>

lemma float_sub_25_20: "float_sub 25 20 = 5"
proof -
  have u: "ulp_exp (5::real) = - 50"
    using ulp_exp_eqI[of 2 5] by simp
  have "float_round 5 = 5"
    by (rule float_round_exact[OF u, of "5 * 2 ^ 50"]) simp
  then show ?thesis by (simp add: float_sub_def)
qed

lemma float_sub_45_40: "float_sub 45 40 = 5"
proof -
  have u: "ulp_exp (5::real) = - 50"
    using ulp_exp_eqI[of 2 5] by simp
  have "float_round 5 = 5"
    by (rule float_round_exact[OF u, of "5 * 2 ^ 50"]) simp
  then show ?thesis by (simp add: float_sub_def)
qed

lemma float_sub_example:
  "float_sub (5643573283048653 / 2 ^ 48) 20 = 14073748835533 / 2 ^ 48"
proof -
  have d: "(5643573283048653 / 2 ^ 48 - 20 :: real) = 14073748835533 / 2 ^ 48" by simp
  have u: "ulp_exp (14073748835533 / 2 ^ 48 :: real) = - 57"
    using ulp_exp_eqI[of "- 5" "14073748835533 / 2 ^ 48"] by simp
  have "float_round (14073748835533 / 2 ^ 48) = 14073748835533 / 2 ^ 48"
    by (rule float_round_exact[OF u, of "14073748835533 * 2 ^ 9"]) simp
  then show ?thesis by (simp only: float_sub_def d)
qed

lemma float_sub_tie:
  "float_sub (4728779608739021 / 2 ^ 55) (4503599627370497 / 2 ^ 57) = float_0_1"
proof -
  have d: "(4728779608739021 / 2 ^ 55 - 4503599627370497 / 2 ^ 57 :: real) = 14411518807585587 / 2 ^ 57"
    by simp
  have nz: "(14411518807585587 / 2 ^ 57 :: real) \<noteq> 0" by simp
  have u: "ulp_exp (14411518807585587 / 2 ^ 57 :: real) = - 56"
    using ulp_exp_eqI[of "- 4" "14411518807585587 / 2 ^ 57"] by simp
  have q: "(14411518807585587 / 2 ^ 57 :: real) / 2 powi (- 56) = 14411518807585587 / 2" by simp
  have r: "round_even (14411518807585587 / 2) = 7205759403792794"
    by (simp add: round_even_def)
  have "float_round (14411518807585587 / 2 ^ 57) = 7205759403792794 * 2 powi (- 56)"
    unfolding float_round_eval[OF nz u] q r by simp
  also have "\<dots> = float_0_1" by (simp add: float_0_1_def)
  finally show ?thesis by (simp only: float_sub_def d)
qed

lemma exact_distance_below_tenth:
  "(4728779608739021 / 2 ^ 55 - 4503599627370497 / 2 ^ 57 :: real) < 1 / 10"
  by simp

section \<open>Properties of the cluster model\<close>

subsection \<open>Dictionary lemmas\<close>

lemma dict_get_dict_set:
  "dict_get (dict_set d k v) k' = (if k' = k then Some v else dict_get d k')"
  by (induction d) (auto simp: dict_get_def)

lemma dict_keys_dict_set:
  "dict_keys (dict_set d k v) =
     (if k \<in> set (dict_keys d) then dict_keys d else dict_keys d @ [k])"
  by (induction d) (force simp: dict_keys_def)+

lemma distinct_dict_set:
  "distinct (dict_keys d) \<Longrightarrow> distinct (dict_keys (dict_set d k v))"
  by (simp add: dict_keys_dict_set)

lemma add_speaker_get:
  "dict_get (speakers (add_speaker c s v)) t =
     (if t = s then Some (case dict_get (speakers c) s of None \<Rightarrow> v | Some old \<Rightarrow> max old v)
      else dict_get (speakers c) t)"
  by (auto simp: add_speaker_def dict_get_dict_set max_def split: option.splits)

lemma add_speaker_mono:
  "dict_get (speakers c) s = Some old \<Longrightarrow>
     \<exists>new. dict_get (speakers (add_speaker c t v)) s = Some new \<and> old \<le> new"
  by (auto simp: add_speaker_get)

lemma add_speaker_calls_mono:
  "dict_get (speakers c) s = Some old \<Longrightarrow>
     \<exists>new. dict_get (speakers (add_speaker_calls c calls)) s = Some new \<and> old \<le> new"
proof (induction calls arbitrary: c old)
  case Nil then show ?case by simp
next
  case (Cons p calls)
  obtain t v where p: "p = (t, v)" by (cases p)
  from add_speaker_mono[OF Cons.prems, of t v]
  obtain mid where m: "dict_get (speakers (add_speaker c t v)) s = Some mid" "old \<le> mid" by blast
  from Cons.IH[OF m(1)] obtain new where
    "dict_get (speakers (add_speaker_calls (add_speaker c t v) calls)) s = Some new" "mid \<le> new" by blast
  with m(2) show ?case by (auto simp: p)
qed

subsection \<open>Recording scores\<close>

text \<open>
  Claim C4. Each \<^verbatim>\<open>add_speaker\<close> call leaves under the speaker's name the maximum of
  the previous value and the reported one (the reported one when the name is new), and
  leaves every other name alone; over any sequence of calls a recorded score never
  decreases; and when one call changes a recorded score, the new score is the reported
  value and is strictly greater than the old one.
\<close>

theorem add_speaker_keeps_maximum:
  "dict_get (speakers (add_speaker c s v)) s =
     Some (case dict_get (speakers c) s of None \<Rightarrow> v | Some old \<Rightarrow> max old v)
   \<and> (\<forall>t. t \<noteq> s \<longrightarrow> dict_get (speakers (add_speaker c s v)) t = dict_get (speakers c) t)
   \<and> (\<forall>t old. dict_get (speakers c) t = Some old \<longrightarrow>
        (\<exists>new. dict_get (speakers (add_speaker_calls c calls)) t = Some new \<and> old \<le> new))
   \<and> (\<forall>old new. dict_get (speakers c) s = Some old \<longrightarrow>
        dict_get (speakers (add_speaker c s v)) s = Some new \<longrightarrow> new \<noteq> old \<longrightarrow>
        old < new \<and> new = v)"
proof (intro conjI allI impI)
  show "dict_get (speakers (add_speaker c s v)) s =
     Some (case dict_get (speakers c) s of None \<Rightarrow> v | Some old \<Rightarrow> max old v)"
    by (simp add: add_speaker_get)
next
  fix t assume "t \<noteq> s"
  then show "dict_get (speakers (add_speaker c s v)) t = dict_get (speakers c) t"
    by (simp add: add_speaker_get)
next
  fix t old assume "dict_get (speakers c) t = Some old"
  then show "\<exists>new. dict_get (speakers (add_speaker_calls c calls)) t = Some new \<and> old \<le> new"
    by (rule add_speaker_calls_mono)
next
  fix old new
  assume a: "dict_get (speakers c) s = Some old"
    "dict_get (speakers (add_speaker c s v)) s = Some new" "new \<noteq> old"
  then show "old < new" by (auto simp: add_speaker_get max_def split: if_splits)
  from a show "new = v" by (auto simp: add_speaker_get max_def split: if_splits)
qed

theorem add_speaker_keeps_maximum_witness:
  "dict_get (speakers ((Cluster_init ''S0'' ''M'' 0)\<lparr>speakers := [(''alice'', - 20)]\<rparr>)) ''alice'' = Some (- 20)
   \<and> dict_get (speakers (add_speaker ((Cluster_init ''S0'' ''M'' 0)\<lparr>speakers := [(''alice'', - 20)]\<rparr>) ''alice'' (- 19.5))) ''alice'' = Some (- 19.5)
   \<and> (\<exists>new. dict_get (speakers (add_speaker_calls ((Cluster_init ''S0'' ''M'' 0)\<lparr>speakers := [(''alice'', - 20)]\<rparr>)
          [(''alice'', - 25), (''bob'', - 30), (''alice'', - 19.5)])) ''alice'' = Some new \<and> - 20 \<le> new)"
  using add_speaker_keeps_maximum [of "(Cluster_init ''S0'' ''M'' 0)\<lparr>speakers := [(''alice'', - 20)]\<rparr>"
      "''alice''" "- 19.5" "[(''alice'', - 25), (''bob'', - 30), (''alice'', - 19.5)]"]
  by (simp add: Cluster_init_def dict_get_def)

subsection \<open>Sorted values: the highest and the second highest score\<close>

lemma sorted_last_Max:
  fixes ys :: "real list"
  assumes "sorted ys" "ys \<noteq> []"
  shows "last ys = Max (set ys)"
proof -
  have "\<forall>y \<in> set ys. y \<le> last ys"
  proof
    fix y assume "y \<in> set ys"
    then obtain i where i: "i < length ys" "ys ! i = y" by (auto simp: in_set_conv_nth)
    with assms have "ys ! i \<le> ys ! (length ys - 1)"
      by (intro sorted_nth_mono) auto
    with i assms show "y \<le> last ys" by (simp add: last_conv_nth)
  qed
  moreover have "last ys \<in> set ys" using assms by simp
  ultimately show ?thesis by (intro Max_eqI[symmetric]) auto
qed

lemma rev_sort_0:
  fixes vs :: "real list"
  assumes "vs \<noteq> []"
  shows "rev (sort vs) ! 0 = Max (set vs)"
proof -
  have "length (sort vs) \<noteq> 0" using assms by simp
  then have ne: "sort vs \<noteq> []" by (simp only: length_0_conv simp_thms)
  then have "rev (sort vs) ! 0 = hd (rev (sort vs))" by (simp add: hd_conv_nth)
  also have "\<dots> = last (sort vs)" by (simp add: hd_rev)
  also have "\<dots> = Max (set (sort vs))" using ne by (intro sorted_last_Max) auto
  finally show ?thesis by simp
qed

lemma rev_sort_1:
  fixes vs :: "real list"
  assumes "2 \<le> length vs"
  shows "rev (sort vs) ! 1 = Max (set (remove1 (Max (set vs)) vs))"
proof -
  let ?ys = "sort vs"
  let ?M = "Max (set vs)"
  have len: "2 \<le> length ?ys" using assms by simp
  then have "length ?ys \<noteq> 0" by linarith
  then have ne: "?ys \<noteq> []" by (simp only: length_0_conv simp_thms)
  have lastM: "last ?ys = ?M" using sorted_last_Max[of ?ys] ne by simp
  have split: "butlast ?ys @ [?M] = ?ys" using append_butlast_last_id[OF ne] by (simp only: lastM)
  have "mset (butlast ?ys @ [?M]) = mset vs" by (simp only: split mset_sort)
  then have "mset vs = add_mset ?M (mset (butlast ?ys))" by simp
  then have "mset (remove1 ?M vs) = mset (butlast ?ys)" by simp
  then have seteq: "set (remove1 ?M vs) = set (butlast ?ys)" by (rule mset_eq_setD)
  have blen: "length (butlast ?ys) = length ?ys - 1" by simp
  have "length (butlast ?ys) \<noteq> 0" using len blen by linarith
  then have bne: "butlast ?ys \<noteq> []" by (simp only: length_0_conv simp_thms)
  have "sorted (butlast ?ys)" by (simp add: sorted_butlast ne)
  then have lb: "last (butlast ?ys) = Max (set (butlast ?ys))" using bne by (rule sorted_last_Max)
  have "last (butlast ?ys) = butlast ?ys ! (length ?ys - 2)"
    using bne blen by (simp add: last_conv_nth numeral_2_eq_2)
  also have "\<dots> = ?ys ! (length ?ys - 2)"
  proof (rule nth_butlast)
    show "length ?ys - 2 < length (butlast ?ys)" using len unfolding blen by linarith
  qed
  also have "\<dots> = rev ?ys ! 1"
    using len by (simp add: rev_nth numeral_2_eq_2)
  finally show ?thesis using seteq lb by simp
qed

lemma py_max_Max:
  assumes "vs \<noteq> []"
  shows "py_max vs = Inr (Max (set vs))"
proof (cases vs)
  case Nil with assms show ?thesis by simp
next
  case (Cons a list)
  then show ?thesis using Max.set_eq_fold[of a list] by simp
qed

lemma get_distance_two:
  assumes "2 \<le> length (speakers c)"
  shows "get_distance c =
     Inr (float_sub \<bar>Max (set (remove1 (Max (set (dict_values (speakers c)))) (dict_values (speakers c))))\<bar>
            \<bar>Max (set (dict_values (speakers c)))\<bar>)"
proof -
  let ?vs = "dict_values (speakers c)"
  have len: "2 \<le> length ?vs" using assms by (simp add: dict_values_def)
  then have ne: "?vs \<noteq> []" by auto
  have "\<not> length (rev (sort ?vs)) < 2" using len by simp
  then show ?thesis
    unfolding get_distance_def Let_def
    by (simp only: if_False rev_sort_0[OF ne] rev_sort_1[OF len])
qed

lemma get_best_speaker_unfold:
  assumes "py_max (dict_values (speakers c)) = Inr v" "get_distance c = Inr d"
  shows "get_best_speaker c =
     Inr (if d < float_0_1 then ''unknown''
          else if v > - 33 then (case best_key (speakers c) v of Some s \<Rightarrow> s | None \<Rightarrow> ''unknown'')
          else ''unknown'',
          c\<lparr>value_attr := Some v,
            speaker := Some (if d < float_0_1 then ''unknown''
              else if v > - 33 then (case best_key (speakers c) v of Some s \<Rightarrow> s | None \<Rightarrow> ''unknown'')
              else ''unknown'')\<rparr>)"
  using assms by (simp add: get_best_speaker_def Let_def)

subsection \<open>The decision of \<^verbatim>\<open>get_best_speaker\<close>\<close>

text \<open>
  Claim C1. With at least two recorded scores \<^verbatim>\<open>get_distance\<close> returns the double
  \<^verbatim>\<open>abs(second) - abs(best)\<close>, where \<open>best\<close> is the highest score and \<open>second\<close> the highest
  of the remaining ones (one occurrence of \<open>best\<close> removed); and whenever that distance is
  below the double \<^verbatim>\<open>.1\<close>, \<^verbatim>\<open>get_best_speaker\<close> returns \<^verbatim>\<open>'unknown'\<close>, whichever speaker
  holds the maximum. The witness is the spec's example, alice at \<open>-20.0\<close> and bob at the
  double \<open>-20.05\<close>: the distance is the double \<open>0.05000000000000071\<close>.
\<close>

theorem get_best_speaker_close_is_unknown:
  assumes "2 \<le> length (speakers c)"
  shows "\<exists>d. get_distance c = Inr d
     \<and> d = float_sub \<bar>Max (set (remove1 (Max (set (dict_values (speakers c)))) (dict_values (speakers c))))\<bar>
                     \<bar>Max (set (dict_values (speakers c)))\<bar>
     \<and> (d < float_0_1 \<longrightarrow>
          get_best_speaker c =
            Inr (''unknown'',
                 c\<lparr>value_attr := Some (Max (set (dict_values (speakers c)))),
                   speaker := Some ''unknown''\<rparr>))"
proof -
  let ?vs = "dict_values (speakers c)"
  have ne: "?vs \<noteq> []" using assms by (auto simp: dict_values_def)
  note gd = get_distance_two[OF assms]
  note pm = py_max_Max[OF ne]
  show ?thesis
    using get_best_speaker_unfold[OF pm gd] gd by simp
qed

theorem get_best_speaker_close_is_unknown_witness:
  "2 \<le> length (speakers ((Cluster_init ''S0'' ''M'' 0)
        \<lparr>speakers := [(''alice'', - 20), (''bob'', - (5643573283048653 / 2 ^ 48))]\<rparr>))
   \<and> get_distance ((Cluster_init ''S0'' ''M'' 0)
        \<lparr>speakers := [(''alice'', - 20), (''bob'', - (5643573283048653 / 2 ^ 48))]\<rparr>)
       = Inr (14073748835533 / 2 ^ 48)
   \<and> (14073748835533 / 2 ^ 48 :: real) < float_0_1
   \<and> map_sum id fst (get_best_speaker ((Cluster_init ''S0'' ''M'' 0)
        \<lparr>speakers := [(''alice'', - 20), (''bob'', - (5643573283048653 / 2 ^ 48))]\<rparr>))
       = Inr ''unknown''"
proof -
  let ?c = "(Cluster_init ''S0'' ''M'' 0)
        \<lparr>speakers := [(''alice'', - 20), (''bob'', - (5643573283048653 / 2 ^ 48))]\<rparr>"
  have len: "2 \<le> length (speakers ?c)" by simp
  from get_best_speaker_close_is_unknown [OF len]
  obtain d where d: "get_distance ?c = Inr d"
    and dv: "d = float_sub \<bar>Max (set (remove1 (Max (set (dict_values (speakers ?c)))) (dict_values (speakers ?c))))\<bar>
                     \<bar>Max (set (dict_values (speakers ?c)))\<bar>"
    and res: "d < float_0_1 \<longrightarrow> get_best_speaker ?c =
            Inr (''unknown'', ?c\<lparr>value_attr := Some (Max (set (dict_values (speakers ?c)))),
                   speaker := Some ''unknown''\<rparr>)"
    by blast
  from dv have "d = float_sub (5643573283048653 / 2 ^ 48) 20" by (simp add: dict_values_def)
  then have dd: "d = 14073748835533 / 2 ^ 48" by (simp only: float_sub_example)
  have lt: "(14073748835533 / 2 ^ 48 :: real) < float_0_1" by (simp add: float_0_1_def)
  with res dd have "map_sum id fst (get_best_speaker ?c) = Inr ''unknown''" by simp
  with d dd lt len show ?thesis by simp
qed

text \<open>
  The rounding decides at the boundary: with alice at the double \<open>-0.03125000000000001\<close>
  and bob at \<open>-0.13125\<close> the exact difference is below one tenth, the computed distance is
  the double \<^verbatim>\<open>.1\<close>, which is not below itself, and the result is alice.
\<close>

lemma get_best_speaker_at_rounding_boundary:
  "get_distance ((Cluster_init ''S0'' ''M'' 0)
        \<lparr>speakers := [(''alice'', - (4503599627370497 / 2 ^ 57)), (''bob'', - (4728779608739021 / 2 ^ 55))]\<rparr>)
       = Inr float_0_1
   \<and> map_sum id fst (get_best_speaker ((Cluster_init ''S0'' ''M'' 0)
        \<lparr>speakers := [(''alice'', - (4503599627370497 / 2 ^ 57)), (''bob'', - (4728779608739021 / 2 ^ 55))]\<rparr>))
       = Inr ''alice''"
proof -
  let ?c = "(Cluster_init ''S0'' ''M'' 0)
        \<lparr>speakers := [(''alice'', - (4503599627370497 / 2 ^ 57)), (''bob'', - (4728779608739021 / 2 ^ 55))]\<rparr>"
  have "get_distance ?c = Inr (float_sub (4728779608739021 / 2 ^ 55) (4503599627370497 / 2 ^ 57))"
    by (simp add: get_distance_def dict_values_def)
  then have gd: "get_distance ?c = Inr float_0_1" by (simp only: float_sub_tie)
  have pm: "py_max (dict_values (speakers ?c)) = Inr (- (4503599627370497 / 2 ^ 57))"
    by (simp add: dict_values_def)
  have "map_sum id fst (get_best_speaker ?c) = Inr ''alice''"
    unfolding get_best_speaker_unfold[OF pm gd]
    by (simp add: best_key_def dict_keys_def dict_get_def)
  with gd show ?thesis by (intro conjI)
qed

text \<open>
  Claim C2. On a cluster with no recorded score, \<^verbatim>\<open>max(self.speakers.values())\<close> is
  \<^verbatim>\<open>max([])\<close>: \<^verbatim>\<open>get_best_speaker\<close> raises \<^verbatim>\<open>ValueError\<close> instead of returning
  \<^verbatim>\<open>'unknown'\<close>.
\<close>

theorem get_best_speaker_empty_raises:
  "get_best_speaker (c\<lparr>speakers := []\<rparr>) = Inl ValueError"
  by (simp add: get_best_speaker_def dict_values_def)

text \<open>
  Claim C8. On a cluster with exactly one recorded score, \<^verbatim>\<open>get_distance\<close> reads
  \<^verbatim>\<open>values[1]\<close> of a one-element list: \<^verbatim>\<open>get_best_speaker\<close> raises \<^verbatim>\<open>IndexError\<close>
  instead of returning the single speaker.
\<close>

theorem get_best_speaker_single_raises:
  "get_best_speaker (c\<lparr>speakers := [(s, v)]\<rparr>) = Inl IndexError"
  by (simp add: get_best_speaker_def get_distance_def dict_values_def Let_def)

lemma two_keys_remove1:
  "(s, m) \<in> set d \<Longrightarrow> (t, m) \<in> set d \<Longrightarrow> s \<noteq> t \<Longrightarrow> m \<in> set (remove1 m (map snd d))"
proof (induction d)
  case Nil then show ?case by simp
next
  case (Cons p d)
  show ?case
  proof (cases "snd p = m")
    case True
    from Cons.prems have "(s, m) \<in> set d \<or> (t, m) \<in> set d" by auto
    then have "m \<in> snd ` set d" by force
    with True show ?thesis by simp
  next
    case False
    with Cons.prems have "(s, m) \<in> set d" "(t, m) \<in> set d" by auto
    with Cons.IH Cons.prems(3) False show ?thesis by simp
  qed
qed

lemma best_key_Some:
  assumes "distinct (dict_keys d)" "m \<in> set (dict_values d)"
  shows "\<exists>s. best_key d m = Some s \<and> dict_get d s = Some m"
proof -
  from assms(2) obtain k where k: "(k, m) \<in> set d" by (auto simp: dict_values_def)
  with assms(1) have "dict_get d k = Some m" by (simp add: dict_get_def dict_keys_def)
  moreover from k have "k \<in> set (dict_keys d)" by (force simp: dict_keys_def)
  ultimately have "best_key d m \<noteq> None" by (auto simp: best_key_def find_None_iff)
  then obtain s where s: "best_key d m = Some s" by auto
  then have "dict_get d s = Some m" by (auto simp: best_key_def find_Some_iff)
  with s show ?thesis by simp
qed

lemma get_distance_ge_tenth:
  assumes "2 \<le> length (speakers c)"
    and "1 / 10 \<le> \<bar>Max (set (remove1 (Max (set (dict_values (speakers c)))) (dict_values (speakers c))))\<bar>
                   - \<bar>Max (set (dict_values (speakers c)))\<bar>"
  shows "\<exists>d. get_distance c = Inr d \<and> float_0_1 \<le> d"
  using get_distance_two[OF assms(1)] float_sub_ge_tenth[OF assms(2)] by simp

text \<open>
  Claim C3, as amended. With at least two recorded scores (under distinct names, as in any
  dict) and a distance that is not below the double \<^verbatim>\<open>.1\<close>, \<^verbatim>\<open>get_best_speaker\<close> returns. If the highest
  score is above the floor \<open>-33.0\<close>, the result is the one speaker holding the highest
  score (no other name holds it); if the highest score is at or below the floor, the guard
  \<^verbatim>\<open>if self.value > max_val\<close> leaves \<^verbatim>\<open>'unknown'\<close> in place. By \<open>get_distance_ge_tenth\<close> the
  hypothesis on the distance holds whenever the exact difference is at least one tenth.
\<close>

theorem get_best_speaker_confident:
  assumes "2 \<le> length (speakers c)"
    and "distinct (dict_keys (speakers c))"
    and "get_distance c = Inr d"
    and "float_0_1 \<le> d"
  shows "\<exists>s c'. get_best_speaker c = Inr (s, c') \<and>
     (if - 33 < Max (set (dict_values (speakers c)))
      then dict_get (speakers c) s = Some (Max (set (dict_values (speakers c)))) \<and>
           (\<forall>t. dict_get (speakers c) t = Some (Max (set (dict_values (speakers c)))) \<longrightarrow> t = s)
      else s = ''unknown'')"
proof -
  let ?d = "speakers c"
  let ?vs = "dict_values ?d"
  let ?M = "Max (set ?vs)"
  have ne: "?vs \<noteq> []" using assms(1) by (auto simp: dict_values_def)
  note pm = py_max_Max[OF ne]
  have nd: "(d < float_0_1) = False" using assms(4) by simp
  note unf = get_best_speaker_unfold[OF pm assms(3), unfolded nd if_False]
  show ?thesis
  proof (cases "- 33 < ?M")
    case False
    then have f: "(?M > - 33) = False" by simp
    have r: "get_best_speaker c =
        Inr (''unknown'', c\<lparr>value_attr := Some ?M, speaker := Some ''unknown''\<rparr>)"
      using unf unfolding f if_False .
    have "get_best_speaker c =
        Inr (''unknown'', c\<lparr>value_attr := Some ?M, speaker := Some ''unknown''\<rparr>) \<and>
      (if - 33 < ?M then dict_get ?d ''unknown'' = Some ?M \<and>
           (\<forall>t. dict_get ?d t = Some ?M \<longrightarrow> t = ''unknown'')
       else ''unknown'' = ''unknown'')"
      using r False by (simp only: if_False simp_thms)
    then show ?thesis by (intro exI)
  next
    case True
    then have tt: "(?M > - 33) = True" by simp
    have "?M \<in> set ?vs" using ne by (intro Max_in) auto
    from best_key_Some[OF assms(2) this] obtain s where
      s: "best_key ?d ?M = Some s" "dict_get ?d s = Some ?M" by blast
    have uniq: "t = s" if t: "dict_get ?d t = Some ?M" for t
    proof (rule ccontr)
      assume "t \<noteq> s"
      from t s(2) have "(t, ?M) \<in> set ?d" "(s, ?M) \<in> set ?d"
        by (auto simp: dict_get_def dest: map_of_SomeD)
      from two_keys_remove1[OF this(2) this(1)] \<open>t \<noteq> s\<close>
      have mem: "?M \<in> set (remove1 ?M ?vs)" by (auto simp: dict_values_def)
      have "set (remove1 ?M ?vs) \<subseteq> set ?vs" by (rule set_remove1_subset)
      then have "Max (set (remove1 ?M ?vs)) \<le> ?M" using mem by (intro Max_mono) auto
      moreover have "?M \<le> Max (set (remove1 ?M ?vs))" using mem by (intro Max_ge) auto
      ultimately have "Max (set (remove1 ?M ?vs)) = ?M" by (rule antisym)
      with get_distance_two[OF assms(1)] assms(3) have "d = 0" by (simp add: float_sub_self)
      with assms(4) show False by (simp add: float_0_1_def)
    qed
    have r: "get_best_speaker c = Inr (s, c\<lparr>value_attr := Some ?M, speaker := Some s\<rparr>)"
      using unf unfolding tt if_True s(1) option.case .
    have u: "\<forall>t. dict_get ?d t = Some ?M \<longrightarrow> t = s"
    proof (intro allI impI)
      fix t assume "dict_get ?d t = Some ?M"
      then show "t = s" by (rule uniq)
    qed
    have "get_best_speaker c = Inr (s, c\<lparr>value_attr := Some ?M, speaker := Some s\<rparr>) \<and>
      (if - 33 < ?M then dict_get ?d s = Some ?M \<and> (\<forall>t. dict_get ?d t = Some ?M \<longrightarrow> t = s)
       else s = ''unknown'')"
      unfolding if_P[OF True] by (intro conjI) (rule r s(2) u)+
    then show ?thesis by (intro exI)
  qed
qed

theorem get_best_speaker_confident_witness:
  "2 \<le> length (speakers ((Cluster_init ''S0'' ''M'' 0)\<lparr>speakers := [(''alice'', - 20), (''bob'', - 25)]\<rparr>))
   \<and> distinct (dict_keys (speakers ((Cluster_init ''S0'' ''M'' 0)\<lparr>speakers := [(''alice'', - 20), (''bob'', - 25)]\<rparr>)))
   \<and> get_distance ((Cluster_init ''S0'' ''M'' 0)\<lparr>speakers := [(''alice'', - 20), (''bob'', - 25)]\<rparr>) = Inr 5
   \<and> float_0_1 \<le> 5
   \<and> - 33 < Max (set (dict_values (speakers ((Cluster_init ''S0'' ''M'' 0)\<lparr>speakers := [(''alice'', - 20), (''bob'', - 25)]\<rparr>))))
   \<and> (\<exists>s c'. get_best_speaker ((Cluster_init ''S0'' ''M'' 0)\<lparr>speakers := [(''alice'', - 20), (''bob'', - 25)]\<rparr>) = Inr (s, c') \<and>
        (if - 33 < Max (set (dict_values (speakers ((Cluster_init ''S0'' ''M'' 0)\<lparr>speakers := [(''alice'', - 20), (''bob'', - 25)]\<rparr>))))
         then dict_get (speakers ((Cluster_init ''S0'' ''M'' 0)\<lparr>speakers := [(''alice'', - 20), (''bob'', - 25)]\<rparr>)) s
                = Some (Max (set (dict_values (speakers ((Cluster_init ''S0'' ''M'' 0)\<lparr>speakers := [(''alice'', - 20), (''bob'', - 25)]\<rparr>))))) \<and>
              (\<forall>t. dict_get (speakers ((Cluster_init ''S0'' ''M'' 0)\<lparr>speakers := [(''alice'', - 20), (''bob'', - 25)]\<rparr>)) t
                = Some (Max (set (dict_values (speakers ((Cluster_init ''S0'' ''M'' 0)\<lparr>speakers := [(''alice'', - 20), (''bob'', - 25)]\<rparr>))))) \<longrightarrow> t = s)
         else s = ''unknown''))
   \<and> map_sum id fst (get_best_speaker ((Cluster_init ''S0'' ''M'' 0)\<lparr>speakers := [(''alice'', - 20), (''bob'', - 25)]\<rparr>))
       = Inr ''alice''"
proof -
  let ?c = "(Cluster_init ''S0'' ''M'' 0)\<lparr>speakers := [(''alice'', - 20), (''bob'', - 25)]\<rparr>"
  have len: "2 \<le> length (speakers ?c)" by simp
  have dist: "distinct (dict_keys (speakers ?c))" by (simp add: dict_keys_def)
  have gd: "get_distance ?c = Inr 5" by (simp add: get_distance_def dict_values_def float_sub_25_20)
  have ge: "float_0_1 \<le> 5" by (simp add: float_0_1_def)
  have mx: "- 33 < Max (set (dict_values (speakers ?c)))" by (simp add: dict_values_def)
  have pm: "py_max (dict_values (speakers ?c)) = Inr (- 20)" by (simp add: dict_values_def)
  have bk: "best_key [(''alice'', - 20), (''bob'', - 25)] (- 20) = Some ''alice''"
    by (simp add: best_key_def dict_keys_def dict_get_def)
  have ev: "map_sum id fst (get_best_speaker ?c) = Inr ''alice''"
    unfolding get_best_speaker_unfold[OF pm gd] by (simp add: bk float_0_1_def)
  note th = get_best_speaker_confident [OF len dist gd ge]
  show ?thesis by (intro conjI) (rule len dist gd ge mx th ev)+
qed

text \<open>
  The floor does gate the outcome: alice at \<open>-40.0\<close> and bob at \<open>-45.0\<close> are \<open>5.0\<close>
  apart, alice holds the maximum, and the result is \<^verbatim>\<open>'unknown'\<close>.
\<close>

theorem get_best_speaker_floor_counterexample:
  "2 \<le> length (speakers ((Cluster_init ''S0'' ''M'' 0)\<lparr>speakers := [(''alice'', - 40), (''bob'', - 45)]\<rparr>))
   \<and> get_distance ((Cluster_init ''S0'' ''M'' 0)\<lparr>speakers := [(''alice'', - 40), (''bob'', - 45)]\<rparr>) = Inr 5
   \<and> float_0_1 \<le> 5
   \<and> py_max (dict_values (speakers ((Cluster_init ''S0'' ''M'' 0)\<lparr>speakers := [(''alice'', - 40), (''bob'', - 45)]\<rparr>))) = Inr (- 40)
   \<and> best_key (speakers ((Cluster_init ''S0'' ''M'' 0)\<lparr>speakers := [(''alice'', - 40), (''bob'', - 45)]\<rparr>)) (- 40) = Some ''alice''
   \<and> map_sum id fst (get_best_speaker ((Cluster_init ''S0'' ''M'' 0)\<lparr>speakers := [(''alice'', - 40), (''bob'', - 45)]\<rparr>))
       = Inr ''unknown''"
proof -
  let ?c = "(Cluster_init ''S0'' ''M'' 0)\<lparr>speakers := [(''alice'', - 40), (''bob'', - 45)]\<rparr>"
  have len: "2 \<le> length (speakers ?c)" by simp
  have gd: "get_distance ?c = Inr 5" by (simp add: get_distance_def dict_values_def float_sub_45_40)
  have ge: "float_0_1 \<le> 5" by (simp add: float_0_1_def)
  have pm: "py_max (dict_values (speakers ?c)) = Inr (- 40)" by (simp add: dict_values_def)
  have bk: "best_key (speakers ?c) (- 40) = Some ''alice''"
    by (simp add: best_key_def dict_keys_def dict_get_def)
  have "map_sum id fst (get_best_speaker ?c) = Inr ''unknown''"
    unfolding get_best_speaker_unfold[OF pm gd] by (simp add: float_0_1_def)
  with len gd ge pm bk show ?thesis by blast
qed

section \<open>Properties of the file operations\<close>

subsection \<open>Parsing keeps \<^verbatim>\<open>frames\<close> equal to the sum of the durations\<close>

lemma sum_durations_append:
  "sum_durations (xs @ [l]) =
     (case sum_durations xs of
        Inl err \<Rightarrow> Inl err
      | Inr s \<Rightarrow> (case seg_duration l of Inl err \<Rightarrow> Inl err | Inr d \<Rightarrow> Inr (s + d)))"
  by (induction xs) (auto split: sum.splits)

lemma set_dict_set:
  "set (dict_set d k v) \<subseteq> insert (k, v) (set d)"
  by (induction d) (auto split: if_splits)

lemma dict_get_in_set:
  "dict_get d k = Some v \<Longrightarrow> (k, v) \<in> set d"
  by (simp add: dict_get_def map_of_SomeD)

lemma frames_inv_iff:
  "frames_inv cs \<longleftrightarrow> (\<forall>k c. (k, c) \<in> set cs \<longrightarrow> sum_durations (segments c) = Inr (frames c))"
  by (auto simp: frames_inv_def list_all_iff)

lemma frames_inv_dict_set:
  assumes "frames_inv cs" "sum_durations (segments c) = Inr (frames c)"
  shows "frames_inv (dict_set cs k c)"
  unfolding frames_inv_iff
proof (intro allI impI)
  fix k' c' assume "(k', c') \<in> set (dict_set cs k c)"
  with set_dict_set[of cs k c] have "(k', c') = (k, c) \<or> (k', c') \<in> set cs" by auto
  then show "sum_durations (segments c') = Inr (frames c')"
    using assms by (auto simp: frames_inv_iff)
qed

lemma extract_line_inv:
  assumes "extract_line (cs, lst) l = Inr (cs', lst')" "frames_inv cs"
  shows "frames_inv cs'"
proof (cases "startswith l '';;''")
  case True
  with assms(1) obtain sid where
    "cs' = dict_set cs sid ((Cluster_init sid ''U'' 0)\<lparr>seg_header := Some l\<rparr>)"
    by (auto simp: extract_line_def split: sum.splits)
  then show ?thesis
    using assms(2) by (simp add: frames_inv_dict_set Cluster_init_def)
next
  case False
  with assms(1) obtain k lc dur where
    k: "dict_get cs k = Some lc"
    and dur: "seg_duration (map FStr (split_ws l)) = Inr dur"
    and cs': "cs' = dict_set cs k
        (lc\<lparr>segments := segments lc @ [map FStr (split_ws l)], frames := frames lc + dur,
           gender := split_ws l ! 4, e := Some (split_ws l ! 5)\<rparr>)"
    by (auto simp: extract_line_def Let_def split: option.splits sum.splits if_splits)
  from k assms(2) have "sum_durations (segments lc) = Inr (frames lc)"
    by (auto simp: frames_inv_iff dest: dict_get_in_set)
  with dur have "sum_durations (segments lc @ [map FStr (split_ws l)]) = Inr (frames lc + dur)"
    by (simp add: sum_durations_append)
  with cs' assms(2) show ?thesis by (simp add: frames_inv_dict_set)
qed

lemma extract_lines_inv:
  "extract_lines st ls = Inr st' \<Longrightarrow> frames_inv (fst st) \<Longrightarrow> frames_inv (fst st')"
proof (induction ls arbitrary: st)
  case Nil then show ?case by simp
next
  case (Cons l ls)
  from Cons.prems(1) obtain st1 where
    s1: "extract_line st l = Inr st1" and s2: "extract_lines st1 ls = Inr st'"
    by (auto split: sum.splits)
  from s1 Cons.prems(2) have "frames_inv (fst st1)"
    using extract_line_inv[of "fst st" "snd st" l "fst st1" "snd st1"] by simp
  with Cons.IH[OF s2] show ?case .
qed

lemma extract_clusters_inv:
  assumes "extract_clusters txt cs0 = Inr cs" "frames_inv cs0"
  shows "frames_inv cs"
proof -
  from assms(1) obtain st' where "extract_lines (cs0, None) (readlines txt) = Inr st'" "cs = fst st'"
    by (cases "extract_lines (cs0, None) (readlines txt)") (auto simp: extract_clusters_def)
  with extract_lines_inv[of "(cs0, None)" "readlines txt" st'] assms(2) show ?thesis by simp
qed

text \<open>
  Claim C9. After \<^verbatim>\<open>extract_clusters\<close> has parsed an artifact without raising (into the empty
  dictionary \<^verbatim>\<open>extract_speakers\<close> passes), every cluster of the result has \<^verbatim>\<open>frames\<close> equal
  to the sum of \<^verbatim>\<open>int(line[3])\<close> over its segments, however many segments it has.
\<close>

theorem extract_clusters_frames:
  assumes "extract_clusters txt [] = Inr cs" and "(k, c) \<in> set cs"
  shows "sum_durations (segments c) = Inr (frames c)"
proof -
  have "frames_inv []" by (simp add: frames_inv_def)
  from extract_clusters_inv[OF assms(1) this] assms(2) show ?thesis
    by (auto simp: frames_inv_iff)
qed

theorem extract_clusters_frames_witness:
  "\<exists>cs c. extract_clusters
       ('';; cluster:S0 [ score:FS = -33.0 ]'' @ [newline] @ ''show 1 0 100 M S U S0'' @ [newline]
         @ ''show 1 250 40 M S U S0'' @ [newline]) [] = Inr cs
     \<and> (''S0'', c) \<in> set cs
     \<and> length (segments c) = 2
     \<and> sum_durations (segments c) = Inr (frames c)
     \<and> frames c = 140"
proof -
  let ?txt = "'';; cluster:S0 [ score:FS = -33.0 ]'' @ [newline] @ ''show 1 0 100 M S U S0'' @ [newline]
         @ ''show 1 250 40 M S U S0'' @ [newline]"
  let ?c = "\<lparr>gender = ''M'', frames = 140, e = Some ''S'', name = ''S0'',
          speaker = None, speakers = [], wave = None, mfcc = None,
          segments =
            [[FStr ''show'', FStr ''1'', FStr ''0'', FStr ''100'',
              FStr ''M'', FStr ''S'', FStr ''U'', FStr ''S0''],
             [FStr ''show'', FStr ''1'', FStr ''250'', FStr ''40'',
              FStr ''M'', FStr ''S'', FStr ''U'', FStr ''S0'']],
          seg_header = Some ('';; cluster:S0 [ score:FS = -33.0 ]'' @ [newline]),
          value_attr = None\<rparr>"
  have ev: "extract_clusters ?txt [] = Inr [(''S0'', ?c)]" by code_simp
  have mem: "(''S0'', ?c) \<in> set [(''S0'', ?c)]" by simp
  have sd: "sum_durations (segments ?c) = Inr (frames ?c)"
    by (rule extract_clusters_frames [OF ev mem])
  have len: "length (segments ?c) = 2" by simp
  have fr: "frames ?c = 140" by simp
  from ev mem len sd fr show ?thesis by (intro exI conjI)
qed

subsection \<open>\<^verbatim>\<open>generate_seg_file\<close> renumbers the start offsets\<close>

lemma seg_duration_update2:
  "seg_duration (line[2 := x]) = seg_duration line"
  by (simp add: seg_duration_def)

lemma write_segments_Cons:
  assumes "write_segments st (line # rest) = Inr (out, segs')"
  obtains dur written out0 rest0 where
    "2 < length line"
    "seg_duration line = Inr dur"
    "format_line (line[2 := FInt st]) = Inr written"
    "write_segments (st + dur) rest = Inr (out0, rest0)"
    "out = written @ out0"
    "segs' = line[2 := FInt st] # rest0"
  using assms
  by (auto simp: seg_duration_update2 split: if_splits sum.splits prod.splits)

lemma write_segments_length:
  "write_segments st segs = Inr (out, segs') \<Longrightarrow> length segs' = length segs"
proof (induction segs arbitrary: st out segs')
  case Nil then show ?case by simp
next
  case (Cons line rest)
  from Cons.prems obtain dur out0 rest0 where
    "write_segments (st + dur) rest = Inr (out0, rest0)" "segs' = line[2 := FInt st] # rest0"
    by (rule write_segments_Cons)
  with Cons.IH show ?case by simp
qed

lemma write_segments_durations:
  "write_segments st segs = Inr (out, segs') \<Longrightarrow> map seg_duration segs' = map seg_duration segs"
proof (induction segs arbitrary: st out segs')
  case Nil then show ?case by simp
next
  case (Cons line rest)
  from Cons.prems obtain dur out0 rest0 where
    "write_segments (st + dur) rest = Inr (out0, rest0)" "segs' = line[2 := FInt st] # rest0"
    by (rule write_segments_Cons)
  with Cons.IH show ?case by (simp add: seg_duration_update2)
qed

lemma write_segments_text:
  "write_segments st segs = Inr (out, segs') \<Longrightarrow>
     \<exists>texts. map format_line segs' = map Inr texts \<and> out = concat texts"
proof (induction segs arbitrary: st out segs')
  case Nil then show ?case by simp
next
  case (Cons line rest)
  from Cons.prems obtain dur written out0 rest0 where
    w: "format_line (line[2 := FInt st]) = Inr written"
    and r: "write_segments (st + dur) rest = Inr (out0, rest0)"
    and o: "out = written @ out0" and s: "segs' = line[2 := FInt st] # rest0"
    by (rule write_segments_Cons)
  from Cons.IH[OF r] obtain texts where
    t: "map format_line rest0 = map Inr texts" "out0 = concat texts" by blast
  have "map format_line segs' = map Inr (written # texts) \<and> out = concat (written # texts)"
    using w o s t by simp
  then show ?case by (rule exI)
qed

lemma write_segments_start:
  "write_segments st segs = Inr (out, segs') \<Longrightarrow> i < length segs \<Longrightarrow>
     \<exists>s. sum_durations (take i segs) = Inr s \<and> segs' ! i = (segs ! i)[2 := FInt (st + s)]"
proof (induction segs arbitrary: st out segs' i)
  case Nil then show ?case by simp
next
  case (Cons line rest)
  from Cons.prems(1) obtain dur out0 rest0 where
    d: "seg_duration line = Inr dur"
    and r: "write_segments (st + dur) rest = Inr (out0, rest0)"
    and s: "segs' = line[2 := FInt st] # rest0"
    by (rule write_segments_Cons)
  show ?case
  proof (cases i)
    case 0
    with s show ?thesis by simp
  next
    case (Suc j)
    with Cons.prems(2) have "j < length rest" by simp
    from Cons.IH[OF r this] obtain sj where
      sj: "sum_durations (take j rest) = Inr sj" "rest0 ! j = (rest ! j)[2 := FInt (st + dur + sj)]"
      by blast
    have "sum_durations (take i (line # rest)) = Inr (dur + sj) \<and>
        segs' ! i = ((line # rest) ! i)[2 := FInt (st + (dur + sj))]"
      using Suc s d sj by (simp add: add.assoc)
    then show ?thesis by (rule exI)
  qed
qed

text \<open>
  Claim C10. When \<^verbatim>\<open>generate_seg_file\<close> returns, the cluster has as many segments as before,
  in the same order; segment \<open>i\<close> is the old segment \<open>i\<close> with position 2 (the start offset)
  overwritten by the integer sum of the durations of the segments before it (\<open>0\<close> for the
  first); the durations are unchanged; the text written is the header followed by the
  formatted updated segments; and nothing else of the cluster changes.
\<close>

theorem generate_seg_file_renumbers:
  assumes "generate_seg_file c = Inr (txt, c')"
  shows "length (segments c') = length (segments c)
     \<and> (\<forall>i<length (segments c). \<exists>s. sum_durations (take i (segments c)) = Inr s
            \<and> segments c' ! i = (segments c ! i)[2 := FInt s])
     \<and> map seg_duration (segments c') = map seg_duration (segments c)
     \<and> (\<exists>header texts. seg_header c = Some header
            \<and> map format_line (segments c') = map Inr texts \<and> txt = header @ concat texts)
     \<and> c' = c\<lparr>segments := segments c'\<rparr>"
proof -
  from assms obtain header out segs where
    h: "seg_header c = Some header"
    and w: "write_segments 0 (segments c) = Inr (out, segs)"
    and t: "txt = header @ out" and c': "c' = c\<lparr>segments := segs\<rparr>"
    by (auto simp: generate_seg_file_def split: option.splits sum.splits prod.splits)
  have s: "segments c' = segs" using c' by simp
  have 1: "length (segments c') = length (segments c)"
    unfolding s by (rule write_segments_length[OF w])
  have 2: "\<forall>i<length (segments c). \<exists>s. sum_durations (take i (segments c)) = Inr s
            \<and> segments c' ! i = (segments c ! i)[2 := FInt s]"
  proof (intro allI impI)
    fix i assume "i < length (segments c)"
    from write_segments_start[OF w this]
    show "\<exists>s. sum_durations (take i (segments c)) = Inr s
            \<and> segments c' ! i = (segments c ! i)[2 := FInt s]"
      unfolding s by simp
  qed
  have 3: "map seg_duration (segments c') = map seg_duration (segments c)"
    unfolding s by (rule write_segments_durations[OF w])
  from write_segments_text[OF w] obtain texts where
    "map format_line segs = map Inr texts" "out = concat texts" by blast
  with h t s have "seg_header c = Some header
            \<and> map format_line (segments c') = map Inr texts \<and> txt = header @ concat texts"
    by simp
  then have 4: "\<exists>header texts. seg_header c = Some header
            \<and> map format_line (segments c') = map Inr texts \<and> txt = header @ concat texts"
    by (intro exI)
  have 5: "c' = c\<lparr>segments := segments c'\<rparr>" using c' by simp
  from 1 2 3 4 5 show ?thesis by (intro conjI)
qed

theorem generate_seg_file_renumbers_witness:
  "\<exists>txt c'. generate_seg_file
       \<lparr>gender = ''M'', frames = 140, e = Some ''S'', name = ''S0'',
          speaker = None, speakers = [], wave = None, mfcc = None,
          segments =
            [[FStr ''show'', FStr ''1'', FStr ''0'', FStr ''100'',
              FStr ''M'', FStr ''S'', FStr ''U'', FStr ''S0''],
             [FStr ''show'', FStr ''1'', FStr ''250'', FStr ''40'',
              FStr ''M'', FStr ''S'', FStr ''U'', FStr ''S0'']],
          seg_header = Some ('';; cluster:S0 [ score:FS = -33.0 ]'' @ [newline]),
          value_attr = None\<rparr> = Inr (txt, c')
     \<and> txt = '';; cluster:S0 [ score:FS = -33.0 ]'' @ [newline] @ ''show 1 0 100 M S U S0'' @ [newline]
         @ ''show 1 100 40 M S U S0'' @ [newline]
     \<and> length (segments c') = 2
     \<and> segments c' ! 1 = [FStr ''show'', FStr ''1'', FInt 100, FStr ''40'',
              FStr ''M'', FStr ''S'', FStr ''U'', FStr ''S0'']
     \<and> map seg_duration (segments c') = [Inr 100, Inr 40]"
proof -
  let ?c = "\<lparr>gender = ''M'', frames = 140, e = Some ''S'', name = ''S0'',
          speaker = None, speakers = [], wave = None, mfcc = None,
          segments =
            [[FStr ''show'', FStr ''1'', FStr ''0'', FStr ''100'',
              FStr ''M'', FStr ''S'', FStr ''U'', FStr ''S0''],
             [FStr ''show'', FStr ''1'', FStr ''250'', FStr ''40'',
              FStr ''M'', FStr ''S'', FStr ''U'', FStr ''S0'']],
          seg_header = Some ('';; cluster:S0 [ score:FS = -33.0 ]'' @ [newline]),
          value_attr = None\<rparr>"
  let ?txt = "'';; cluster:S0 [ score:FS = -33.0 ]'' @ [newline] @ ''show 1 0 100 M S U S0'' @ [newline]
         @ ''show 1 100 40 M S U S0'' @ [newline]"
  let ?c' = "?c\<lparr>segments :=
            [[FStr ''show'', FStr ''1'', FInt 0, FStr ''100'',
              FStr ''M'', FStr ''S'', FStr ''U'', FStr ''S0''],
             [FStr ''show'', FStr ''1'', FInt 100, FStr ''40'',
              FStr ''M'', FStr ''S'', FStr ''U'', FStr ''S0'']]\<rparr>"
  have ev: "generate_seg_file ?c = Inr (?txt, ?c')" by code_simp
  note th = generate_seg_file_renumbers [OF ev]
  from th have len: "length (segments ?c') = 2" by simp
  from th have dur: "map seg_duration (segments ?c') = map seg_duration (segments ?c)" by blast
  have d0: "map seg_duration (segments ?c) = [Inr 100, Inr 40]" by code_simp
  have nth1: "segments ?c' ! 1 = [FStr ''show'', FStr ''1'', FInt 100, FStr ''40'',
              FStr ''M'', FStr ''S'', FStr ''U'', FStr ''S0'']" by simp
  have "generate_seg_file ?c = Inr (?txt, ?c') \<and> ?txt = ?txt \<and> length (segments ?c') = 2
     \<and> segments ?c' ! 1 = [FStr ''show'', FStr ''1'', FInt 100, FStr ''40'',
              FStr ''M'', FStr ''S'', FStr ''U'', FStr ''S0'']
     \<and> map seg_duration (segments ?c') = [Inr 100, Inr 40]"
    using ev len nth1 dur[unfolded d0] by (intro conjI) (rule refl | assumption)+
  then show ?thesis by (intro exI)
qed

subsection \<open>Relabelling and parsing again\<close>

text \<open>
  Claim C5. A two-line artifact parses into one cluster with one segment. \<^verbatim>\<open>ident_seg\<close>
  writes every line, which still ends in its line feed, followed by another line feed, so
  the relabelled artifact has an empty line after every record; on the first of them
  \<^verbatim>\<open>extract_clusters\<close> appends the empty list as a segment and raises \<^verbatim>\<open>IndexError\<close> at
  \<^verbatim>\<open>line[3]\<close>. The round trip does not return the original segments.
\<close>

theorem ident_seg_reparse_fails:
  "extract_clusters
       ('';; cluster:S0 [ score:FS = -33.0 ]'' @ [newline] @ ''show 1 0 100 M S U S0'' @ [newline]) []
     = Inr [(''S0'',
         \<lparr>gender = ''M'', frames = 100, e = Some ''S'', name = ''S0'',
          speaker = None, speakers = [], wave = None, mfcc = None,
          segments = [[FStr ''show'', FStr ''1'', FStr ''0'', FStr ''100'',
              FStr ''M'', FStr ''S'', FStr ''U'', FStr ''S0'']],
          seg_header = Some ('';; cluster:S0 [ score:FS = -33.0 ]'' @ [newline]),
          value_attr = None\<rparr>)]
   \<and> ident_seg
       ('';; cluster:S0 [ score:FS = -33.0 ]'' @ [newline] @ ''show 1 0 100 M S U S0'' @ [newline])
       ''carol''
     = Inr ('';; cluster:carol [ score:FS = -33.0 ]'' @ [newline, newline]
            @ ''show 1 0 100 M S U carol'' @ [newline, newline])
   \<and> extract_clusters
       ('';; cluster:carol [ score:FS = -33.0 ]'' @ [newline, newline]
            @ ''show 1 0 100 M S U carol'' @ [newline, newline]) []
     = Inl IndexError"
  by code_simp

text \<open>
  The replacement is by substring over the whole line: a cluster id that is a digit occurs
  inside the numeric fields, and relabelling rewrites the duration as well.
\<close>

lemma ident_seg_digit_id_corrupts_duration:
  "ident_seg ('';; cluster:1 [ score:FS = -33.0 ]'' @ [newline] @ ''show 1 0 100 M S U 1'' @ [newline]) ''carol''
     = Inr ('';; cluster:carol [ score:FS = -33.0 ]'' @ [newline, newline]
            @ ''show carol 0 carol00 M S U carol'' @ [newline, newline])"
  by code_simp

section \<open>Properties of the enrollment\<close>

subsection \<open>Decimal numerals are injective\<close>

lemma digit_val_digit_char:
  assumes "m < 10"
  shows "digit_val (digit_char m) = Some m"
proof -
  have all: "\<forall>i \<in> set [0 ..< 10]. digit_val (digit_char i) = Some i" by code_simp
  from assms have "m \<in> set [0 ..< 10]" by simp
  with all show ?thesis by blast
qed

lemma digit_char_not_dot: "digit_char m \<noteq> CHR ''.''"
proof -
  have all: "\<forall>i \<in> set [0 ..< 10]. digit_char i \<noteq> CHR ''.''" by code_simp
  have "m mod 10 \<in> set [0 ..< 10]" by simp
  with all have "digit_char (m mod 10) \<noteq> CHR ''.''" by blast
  then show ?thesis by (simp add: digit_char_def)
qed

lemma digits_val_snoc:
  "digits_val acc (s @ [ch]) =
     (case digits_val acc s of
        None \<Rightarrow> None
      | Some a \<Rightarrow> (case digit_val ch of None \<Rightarrow> None | Some dv \<Rightarrow> Some (10 * a + dv)))"
  by (induction s arbitrary: acc) (auto split: option.splits)

lemma digits_val_str_nat: "digits_val 0 (str_nat n) = Some n"
proof (induction n rule: str_nat.induct)
  case (1 n)
  show ?case
  proof (cases "n < 10")
    case True
    then show ?thesis
      by (subst str_nat.simps) (simp add: digit_val_digit_char)
  next
    case False
    with 1 have ih: "digits_val 0 (str_nat (n div 10)) = Some (n div 10)" by simp
    have m: "n mod 10 < 10" by simp
    from False have "str_nat n = str_nat (n div 10) @ [digit_char (n mod 10)]"
      by (subst str_nat.simps) simp
    then show ?thesis
      by (simp add: digits_val_snoc ih digit_val_digit_char[OF m])
  qed
qed

lemma str_nat_inj:
  assumes "str_nat m = str_nat n"
  shows "m = n"
proof -
  have "Some m = digits_val 0 (str_nat m)" by (simp only: digits_val_str_nat)
  also have "\<dots> = digits_val 0 (str_nat n)" by (simp only: assms)
  also have "\<dots> = Some n" by (simp only: digits_val_str_nat)
  finally show ?thesis by simp
qed

lemma str_nat_last: "str_nat n \<noteq> [] \<and> last (str_nat n) = digit_char (n mod 10)"
proof (cases "n < 10")
  case True
  then have "str_nat n = [digit_char n]" by (subst str_nat.simps) simp
  with True show ?thesis by simp
next
  case False
  then have "str_nat n = str_nat (n div 10) @ [digit_char (n mod 10)]"
    by (subst str_nat.simps) simp
  then show ?thesis by simp
qed

lemma str_int_nat: "str_int (int n) = str_nat n"
  by (simp add: str_int_def)

lemma gmm_name_of_inj: "gmm_name_of nm j = gmm_name_of nm k \<Longrightarrow> j = k"
  by (simp add: gmm_name_of_def str_int_nat str_nat_inj)

lemma wav_name_of_inj: "wav_name_of nm j = wav_name_of nm k \<Longrightarrow> j = k"
  by (simp add: wav_name_of_def str_int_nat str_nat_inj)

lemma gmm_name_of_neq_plain: "gmm_name_of nm k \<noteq> nm @ ''.gmm''"
proof
  assume "gmm_name_of nm k = nm @ ''.gmm''"
  then have "str_nat k @ ''.gmm'' = ''.gmm''" by (simp add: gmm_name_of_def str_int_nat)
  then have "str_nat k = []" by simp
  with str_nat_last[of k] show False by simp
qed




subsection \<open>The probing loop ends at the first free index\<close>

lemma has_key_iff: "has_key db f \<longleftrightarrow> f \<in> set (dict_keys db)"
  by (simp add: has_key_def dict_get_def dict_keys_def map_of_eq_None_iff)

lemma finite_taken: "finite {k. taken nm db cwd k}"
proof -
  have "{k. taken nm db cwd k} \<subseteq>
      gmm_name_of nm -` set (dict_keys db) \<union> wav_name_of nm -` set cwd"
    by (auto simp: taken_def has_key_iff)
  moreover have "finite (gmm_name_of nm -` set (dict_keys db))"
    by (rule finite_vimageI) (auto intro: injI gmm_name_of_inj)
  moreover have "finite (wav_name_of nm -` set cwd)"
    by (rule finite_vimageI) (auto intro: injI wav_name_of_inj)
  ultimately show ?thesis by (meson finite_UnI finite_subset)
qed

lemma free_index_exists: "\<exists>k. 0 < k \<and> \<not> taken nm db cwd k"
proof -
  let ?T = "{k. taken nm db cwd k}"
  have fin: "finite (insert 0 ?T)" using finite_taken by simp
  have "Suc (Max (insert 0 ?T)) \<notin> insert 0 ?T"
  proof
    assume "Suc (Max (insert 0 ?T)) \<in> insert 0 ?T"
    then have "Suc (Max (insert 0 ?T)) \<le> Max (insert 0 ?T)" using fin by (rule Max_ge[rotated])
    then show False by simp
  qed
  then have "\<not> taken nm db cwd (Suc (Max (insert 0 ?T)))" by simp
  then show ?thesis by blast
qed

lemma probe_reaches:
  assumes "cont < k" and "\<not> taken nm db cwd k"
    and "\<forall>j. cont < j \<and> j < k \<longrightarrow> taken nm db cwd j"
  shows "probe nm db cwd cont = Some k"
  using assms
proof (induction "k - cont" arbitrary: cont)
  case 0
  then show ?case by simp
next
  case (Suc d)
  show ?case
  proof (cases "cont + 1 = k")
    case True
    with Suc.prems(2) show ?thesis
      by (subst probe.simps) (simp add: taken_def)
  next
    case False
    with Suc.prems(1) have lt: "cont + 1 < k" by simp
    with Suc.prems(3) have tk: "taken nm db cwd (cont + 1)" by simp
    have d: "d = k - (cont + 1)" using Suc.hyps(2) by simp
    have rest: "\<forall>j. cont + 1 < j \<and> j < k \<longrightarrow> taken nm db cwd j" using Suc.prems(3) by simp
    have "probe nm db cwd (cont + 1) = Some k"
      by (rule Suc.hyps(1)[OF d lt Suc.prems(2) rest])
    with tk show ?thesis
      by (subst probe.simps) (auto simp: taken_def)
  qed
qed

lemma probe_from_zero:
  "\<exists>k. 0 < k \<and> probe nm db cwd 0 = Some k \<and> \<not> taken nm db cwd k
       \<and> (\<forall>j. 0 < j \<and> j < k \<longrightarrow> taken nm db cwd j)"
proof -
  define k where "k = (LEAST k. 0 < k \<and> \<not> taken nm db cwd k)"
  from free_index_exists[of nm db cwd] have ex: "\<exists>k. 0 < k \<and> \<not> taken nm db cwd k" .
  then have k: "0 < k \<and> \<not> taken nm db cwd k" unfolding k_def by (rule LeastI_ex)
  have least: "\<forall>j. 0 < j \<and> j < k \<longrightarrow> taken nm db cwd j"
  proof (intro allI impI)
    fix j assume j: "0 < j \<and> j < k"
    show "taken nm db cwd j"
    proof (rule ccontr)
      assume "\<not> taken nm db cwd j"
      with j have "0 < j \<and> \<not> taken nm db cwd j" by simp
      then have "k \<le> j" unfolding k_def by (rule Least_le)
      with j show False by simp
    qed
  qed
  from k least have "probe nm db cwd 0 = Some k" by (intro probe_reaches) simp_all
  with k least show ?thesis by blast
qed




subsection \<open>The name of the stored file\<close>

lemma splitext_gmm_name_of:
  assumes "0 < k"
  shows "fst (splitext (gmm_name_of nm k)) = nm @ str_nat k"
proof -
  let ?x = "nm @ str_nat k"
  have p: "gmm_name_of nm k = ?x @ ''.gmm''" by (simp add: gmm_name_of_def str_int_nat)
  have tw: "takeWhile (\<lambda>ch. ch \<noteq> CHR ''.'') (rev (?x @ ''.gmm'')) = ''mmg''" by simp
  have nd: "\<not> list_all (\<lambda>ch. ch = CHR ''.'') ?x"
  proof
    assume a: "list_all (\<lambda>ch. ch = CHR ''.'') ?x"
    have ne: "str_nat k \<noteq> []" and la: "last (str_nat k) = digit_char (k mod 10)"
      using str_nat_last[of k] by blast+
    have "digit_char (k mod 10) \<in> set (str_nat k)" using last_in_set[OF ne] unfolding la .
    then have "digit_char (k mod 10) \<in> set ?x" by simp
    with a have "digit_char (k mod 10) = CHR ''.''" by (simp only: list_all_iff)
    with digit_char_not_dot[of "k mod 10"] show False by simp
  qed
  have tk: "take (length (?x @ ''.gmm'') - length ''gmm'' - 1) (?x @ ''.gmm'') = ?x" by simp
  show ?thesis unfolding p splitext_def Let_def tw using nd tk by simp
qed



lemma build_and_store_gmm_append_only:
  assumes "build_and_store_gmm show trained db = Inr db'" and "dict_get db f = Some a"
  shows "dict_get db' f = Some a"
proof -
  from assms(1) obtain art where
    hk: "\<not> has_key db (show @ ''.gmm'')" and db': "db' = dict_set db (show @ ''.gmm'') art"
    by (auto simp: build_and_store_gmm_def shutil_move_into_def split: option.splits if_splits)
  from hk assms(2) have "f \<noteq> show @ ''.gmm''" by (auto simp: has_key_def)
  with assms(2) db' show ?thesis by (simp add: dict_get_dict_set)
qed

text \<open>
  Claim C6. When the partition already has \<^verbatim>\<open>name.gmm\<close>, the naming loop ends: it returns
  the first \<open>k \<ge> 1\<close> for which neither \<^verbatim>\<open>name<k>.gmm\<close> is in the partition nor
  \<^verbatim>\<open>name<k>.wav\<close> in the working directory, every smaller index being taken. The new name
  differs from \<^verbatim>\<open>name.gmm\<close>. When the training leaves a model, the enrollment stores it
  under the new name and changes no other entry of the partition, so the model under the
  original name is the one that was there; when the training fails, no database is
  written. By \<open>build_and_store_gmm_append_only\<close> the move keeps every entry of whatever
  database it finds, because \<^verbatim>\<open>shutil.move\<close> refuses an existing destination.
\<close>

theorem enroll_collision_keeps_existing:
  assumes "has_key db (nm @ ''.gmm'')"
  shows "\<exists>k. 0 < k
      \<and> choose_gmm_name nm db cwd = Some (gmm_name_of nm k)
      \<and> \<not> has_key db (gmm_name_of nm k) \<and> wav_name_of nm k \<notin> set cwd
      \<and> (\<forall>j. 0 < j \<and> j < k \<longrightarrow> has_key db (gmm_name_of nm j) \<or> wav_name_of nm j \<in> set cwd)
      \<and> gmm_name_of nm k \<noteq> nm @ ''.gmm''
      \<and> enroll nm db cwd (Some art) = Some (Inr (gmm_name_of nm k, dict_set db (gmm_name_of nm k) art))
      \<and> dict_get (dict_set db (gmm_name_of nm k) art) (gmm_name_of nm k) = Some art
      \<and> (\<forall>f. f \<noteq> gmm_name_of nm k \<longrightarrow> dict_get (dict_set db (gmm_name_of nm k) art) f = dict_get db f)
      \<and> enroll nm db cwd None = Some (Inl SubprocessError)"
proof -
  from probe_from_zero[of nm db cwd] obtain k where
    kpos: "0 < k" and pr: "probe nm db cwd 0 = Some k"
    and free: "\<not> taken nm db cwd k"
    and least: "\<forall>j. 0 < j \<and> j < k \<longrightarrow> taken nm db cwd j"
    by blast
  let ?new = "gmm_name_of nm k"
  have 1: "choose_gmm_name nm db cwd = Some ?new"
    using assms pr by (simp add: choose_gmm_name_def)
  have 2: "\<not> has_key db ?new" using free by (simp add: taken_def)
  have 3: "wav_name_of nm k \<notin> set cwd" using free by (simp add: taken_def)
  have 4: "\<forall>j. 0 < j \<and> j < k \<longrightarrow> has_key db (gmm_name_of nm j) \<or> wav_name_of nm j \<in> set cwd"
    using least by (simp add: taken_def)
  have 5: "?new \<noteq> nm @ ''.gmm''" by (rule gmm_name_of_neq_plain)
  have base: "fst (splitext ?new) @ ''.gmm'' = ?new"
    using splitext_gmm_name_of[OF kpos, of nm] by (simp add: gmm_name_of_def str_int_nat)
  have 6: "enroll nm db cwd (Some art) = Some (Inr (?new, dict_set db ?new art))"
    using 2 by (simp add: enroll_def 1 Let_def build_and_store_gmm_def shutil_move_into_def base)
  have 7: "dict_get (dict_set db ?new art) ?new = Some art" by (simp add: dict_get_dict_set)
  have 8: "\<forall>f. f \<noteq> ?new \<longrightarrow> dict_get (dict_set db ?new art) f = dict_get db f"
    by (simp add: dict_get_dict_set)
  have 9: "enroll nm db cwd None = Some (Inl SubprocessError)"
    by (simp add: enroll_def 1 Let_def build_and_store_gmm_def)
  have "0 < k
      \<and> choose_gmm_name nm db cwd = Some ?new
      \<and> \<not> has_key db ?new \<and> wav_name_of nm k \<notin> set cwd
      \<and> (\<forall>j. 0 < j \<and> j < k \<longrightarrow> has_key db (gmm_name_of nm j) \<or> wav_name_of nm j \<in> set cwd)
      \<and> ?new \<noteq> nm @ ''.gmm''
      \<and> enroll nm db cwd (Some art) = Some (Inr (?new, dict_set db ?new art))
      \<and> dict_get (dict_set db ?new art) ?new = Some art
      \<and> (\<forall>f. f \<noteq> ?new \<longrightarrow> dict_get (dict_set db ?new art) f = dict_get db f)
      \<and> enroll nm db cwd None = Some (Inl SubprocessError)"
    by (intro conjI) (rule kpos 1 2 3 4 5 6 7 8 9)+
  then show ?thesis by (rule exI)
qed

theorem enroll_collision_keeps_existing_witness:
  "has_key [(''carol.gmm'', 10 :: nat), (''carol1.gmm'', 11)] (''carol'' @ ''.gmm'')
   \<and> (\<exists>k. 0 < k
      \<and> choose_gmm_name ''carol'' [(''carol.gmm'', 10 :: nat), (''carol1.gmm'', 11)] [''carol2.wav''] = Some (gmm_name_of ''carol'' k)
      \<and> \<not> has_key [(''carol.gmm'', 10 :: nat), (''carol1.gmm'', 11)] (gmm_name_of ''carol'' k) \<and> wav_name_of ''carol'' k \<notin> set [''carol2.wav'']
      \<and> (\<forall>j. 0 < j \<and> j < k \<longrightarrow> has_key [(''carol.gmm'', 10 :: nat), (''carol1.gmm'', 11)] (gmm_name_of ''carol'' j) \<or> wav_name_of ''carol'' j \<in> set [''carol2.wav''])
      \<and> gmm_name_of ''carol'' k \<noteq> ''carol'' @ ''.gmm''
      \<and> enroll ''carol'' [(''carol.gmm'', 10 :: nat), (''carol1.gmm'', 11)] [''carol2.wav''] (Some 12) = Some (Inr (gmm_name_of ''carol'' k, dict_set [(''carol.gmm'', 10 :: nat), (''carol1.gmm'', 11)] (gmm_name_of ''carol'' k) 12))
      \<and> dict_get (dict_set [(''carol.gmm'', 10 :: nat), (''carol1.gmm'', 11)] (gmm_name_of ''carol'' k) 12) (gmm_name_of ''carol'' k) = Some 12
      \<and> (\<forall>f. f \<noteq> gmm_name_of ''carol'' k \<longrightarrow> dict_get (dict_set [(''carol.gmm'', 10 :: nat), (''carol1.gmm'', 11)] (gmm_name_of ''carol'' k) 12) f = dict_get [(''carol.gmm'', 10 :: nat), (''carol1.gmm'', 11)] f)
      \<and> enroll ''carol'' [(''carol.gmm'', 10 :: nat), (''carol1.gmm'', 11)] [''carol2.wav''] None = Some (Inl SubprocessError))
   \<and> enroll ''carol'' [(''carol.gmm'', 10 :: nat), (''carol1.gmm'', 11)] [''carol2.wav''] (Some 12)
       = Some (Inr (''carol3.gmm'', [(''carol.gmm'', 10), (''carol1.gmm'', 11), (''carol3.gmm'', 12)]))"
proof -
  have hk: "has_key [(''carol.gmm'', 10 :: nat), (''carol1.gmm'', 11)] (''carol'' @ ''.gmm'')"
    by code_simp
  have ev: "enroll ''carol'' [(''carol.gmm'', 10 :: nat), (''carol1.gmm'', 11)] [''carol2.wav''] (Some 12)
       = Some (Inr (''carol3.gmm'', [(''carol.gmm'', 10), (''carol1.gmm'', 11), (''carol3.gmm'', 12)]))"
    by code_simp
  note th = enroll_collision_keeps_existing [OF hk, of "[''carol2.wav'']" 12]
  show ?thesis by (intro conjI) (rule hk th ev)+
qed

section \<open>The scoring phase is bounded and joined\<close>

lemma sched_bound_init: "sched_bound cpus (sched_init jobs)"
  by (simp add: sched_bound_def sched_init_def)

lemma sched_bound_step:
  assumes "sched_step cpus s s'" and "sched_bound cpus s"
  shows "sched_bound cpus s'"
  using assms
proof (cases rule: sched_step.cases)
  case (child_ends j)
  then have "length (sched_alive s') = length (sched_alive s) - 1"
    by (simp add: length_remove1)
  moreover from child_ends have "0 < length (sched_alive s)" by (cases "sched_alive s") auto
  ultimately show ?thesis using assms(2) child_ends by (auto simp: sched_bound_def)
qed (auto simp: sched_bound_def)

lemma sched_bound_reachable:
  "sched_reachable cpus jobs s \<Longrightarrow> sched_bound cpus s"
  by (induction rule: sched_reachable.induct) (auto intro: sched_bound_init sched_bound_step)

lemma sched_start_only_below:
  assumes "sched_step cpus s s'" and "sched_alive s' = j # sched_alive s" and "sched_bound cpus s"
  shows "length (sched_alive s) < cpus"
  using assms(1)
proof (cases rule: sched_step.cases)
  case (child_ends i)
  then have "length (sched_alive s') = length (sched_alive s) - 1" by (simp add: length_remove1)
  with assms(2) show ?thesis by simp
next
  case (start i js)
  with assms(3) show ?thesis by (simp add: sched_bound_def)
qed (use assms(2) in auto)

lemma dict_get_values:
  "dict_get d k = Some v \<Longrightarrow> v \<in> set (dict_values d)"
  by (force simp: dict_get_def dict_values_def dest: map_of_SomeD)

lemma sched_joined_init: "sched_joined jobs (sched_init jobs)"
  by (simp add: sched_joined_def sched_dispatched_def sched_init_def)

lemma sched_dispatched_start:
  assumes d: "distinct (map job_key jobs)"
    and inv: "sched_dispatched jobs s"
    and todo: "sched_todo s = j # js"
  shows "sched_dispatched jobs
      (s\<lparr>sched_pc := AtCheck, sched_todo := js, sched_alive := j # sched_alive s,
         sched_procs := dict_set (sched_procs s) (job_key j) j\<rparr>)"
proof -
  from inv obtain started where
    j1: "jobs = started @ sched_todo s" and a: "set (sched_alive s) \<subseteq> set started"
    and pr: "\<forall>i \<in> set started. dict_get (sched_procs s) (job_key i) = Some i"
    by (auto simp: sched_dispatched_def)
  from j1 todo have j2: "jobs = (started @ [j]) @ js" by simp
  have fresh: "job_key i \<noteq> job_key j" if "i \<in> set started" for i
  proof
    assume eq: "job_key i = job_key j"
    from d j1 todo have "distinct (map job_key started @ job_key j # map job_key js)" by simp
    then have "job_key j \<notin> set (map job_key started)" by (simp add: distinct_append)
    moreover from that have "job_key i \<in> set (map job_key started)" by simp
    ultimately show False unfolding eq by (rule notE)
  qed
  have pr': "\<forall>i \<in> set (started @ [j]).
      dict_get (dict_set (sched_procs s) (job_key j) j) (job_key i) = Some i"
  proof
    fix i assume "i \<in> set (started @ [j])"
    then consider "i = j" | "i \<in> set started" by auto
    then show "dict_get (dict_set (sched_procs s) (job_key j) j) (job_key i) = Some i"
    proof cases
      case 1 then show ?thesis by (simp add: dict_get_dict_set)
    next
      case 2
      with fresh pr show ?thesis by (simp add: dict_get_dict_set)
    qed
  qed
  have a': "set (j # sched_alive s) \<subseteq> set (started @ [j])" using a by auto
  show ?thesis
    unfolding sched_dispatched_def
    by (rule exI[of _ "started @ [j]"]) (use j2 a' pr' in simp)
qed

lemma sched_joined_step:
  assumes d: "distinct (map job_key jobs)"
    and st: "sched_step cpus s s'" and inv: "sched_joined jobs s"
  shows "sched_joined jobs s'"
  using st
proof (cases rule: sched_step.cases)
  case (child_ends j)
  have sub: "set (remove1 j (sched_alive s)) \<subseteq> set (sched_alive s)" by (rule set_remove1_subset)
  show ?thesis
  proof (cases "sched_pc s")
    case AtJoin
    with inv child_ends sub show ?thesis by (auto simp: sched_joined_def)
  next
    case AtResolve
    with inv child_ends show ?thesis by (auto simp: sched_joined_def)
  next
    case AtCheck
    with inv child_ends sub show ?thesis
      by (auto simp: sched_joined_def sched_dispatched_def)
  next
    case AtPoll
    with inv child_ends sub show ?thesis
      by (auto simp: sched_joined_def sched_dispatched_def)
  next
    case AtStart
    with inv child_ends sub show ?thesis
      by (auto simp: sched_joined_def sched_dispatched_def)
  qed
next
  case (test_below j js)
  with inv show ?thesis by (simp add: sched_joined_def sched_dispatched_def)
next
  case (test_full j js)
  with inv show ?thesis by (simp add: sched_joined_def sched_dispatched_def)
next
  case poll_sleep
  with inv show ?thesis by simp
next
  case poll_leave
  with inv show ?thesis by (simp add: sched_joined_def sched_dispatched_def)
next
  case (start j js)
  from inv start have "sched_dispatched jobs s" by (simp add: sched_joined_def)
  from sched_dispatched_start[OF d this start(3)] start show ?thesis
    by (simp add: sched_joined_def)
next
  case (loops_end q)
  from loops_end(4) have q: "set q = set (dict_values (sched_procs s))" by (rule mset_eq_setD)
  from inv loops_end obtain started where
    a: "set (sched_alive s) \<subseteq> set started"
    and pr: "\<forall>i \<in> set started. dict_get (sched_procs s) (job_key i) = Some i"
    by (auto simp: sched_joined_def sched_dispatched_def)
  have "set (sched_alive s) \<subseteq> set (dict_values (sched_procs s))"
  proof
    fix i assume "i \<in> set (sched_alive s)"
    with a pr have "dict_get (sched_procs s) (job_key i) = Some i" by auto
    then show "i \<in> set (dict_values (sched_procs s))" by (rule dict_get_values)
  qed
  with loops_end q show ?thesis by (simp add: sched_joined_def)
next
  case (join_next j js)
  with inv have "set (sched_alive s) \<subseteq> set (j # js)" by (simp add: sched_joined_def)
  with join_next(4) have "set (sched_alive s) \<subseteq> set js" by auto
  with join_next show ?thesis by (simp add: sched_joined_def)
next
  case join_end
  with inv show ?thesis by (simp add: sched_joined_def)
qed

lemma sched_joined_reachable:
  "sched_reachable cpus jobs s \<Longrightarrow> distinct (map job_key jobs) \<Longrightarrow> sched_joined jobs s"
  by (induction rule: sched_reachable.induct) (auto intro: sched_joined_init sched_joined_step)

text \<open>
  The dictionary \<^verbatim>\<open>p\<close> holds one process per key \<^verbatim>\<open>f+cluster\<close>. Two different jobs have
  different keys as soon as no cluster label is a proper suffix of another one, as is the
  case of the labels \<^verbatim>\<open>S0\<close>, \<^verbatim>\<open>S1\<close>, ... of a segmentation file.
\<close>

lemma job_key_inj:
  assumes k: "job_key i = job_key j"
    and ij: "\<not> (\<exists>x. x \<noteq> [] \<and> job_cluster j = x @ job_cluster i)"
    and ji: "\<not> (\<exists>x. x \<noteq> [] \<and> job_cluster i = x @ job_cluster j)"
  shows "i = j"
proof -
  from k have "job_file i @ job_cluster i = job_file j @ job_cluster j"
    by (simp add: job_key_def)
  then obtain us where us:
    "(job_file i = job_file j @ us \<and> us @ job_cluster i = job_cluster j) \<or>
     (job_file i @ us = job_file j \<and> job_cluster i = us @ job_cluster j)"
    unfolding append_eq_append_conv2 by (rule exE)
  have "us = []"
  proof (rule ccontr)
    assume ne: "us \<noteq> []"
    from us show False
    proof
      assume "job_file i = job_file j @ us \<and> us @ job_cluster i = job_cluster j"
      with ne have "\<exists>x. x \<noteq> [] \<and> job_cluster j = x @ job_cluster i" by (intro exI[of _ us]) simp
      with ij show False by (rule notE)
    next
      assume "job_file i @ us = job_file j \<and> job_cluster i = us @ job_cluster j"
      with ne have "\<exists>x. x \<noteq> [] \<and> job_cluster i = x @ job_cluster j" by (intro exI[of _ us]) simp
      with ji show False by (rule notE)
    qed
  qed
  with us have "job_file i = job_file j" "job_cluster i = job_cluster j" by auto
  then show ?thesis by (simp add: job.expand)
qed

lemma job_keys_distinct:
  assumes d: "distinct jobs"
    and suf: "\<forall>i \<in> set jobs. \<forall>j \<in> set jobs. \<not> (\<exists>x. x \<noteq> [] \<and> job_cluster j = x @ job_cluster i)"
  shows "distinct (map job_key jobs)"
proof -
  have "inj_on job_key (set jobs)"
  proof (rule inj_onI)
    fix i j assume i: "i \<in> set jobs" and j: "j \<in> set jobs" and k: "job_key i = job_key j"
    from suf i j have ij: "\<not> (\<exists>x. x \<noteq> [] \<and> job_cluster j = x @ job_cluster i)" by blast
    from suf j i have ji: "\<not> (\<exists>x. x \<noteq> [] \<and> job_cluster i = x @ job_cluster j)" by blast
    from k ij ji show "i = j" by (rule job_key_inj)
  qed
  with d show ?thesis by (simp add: distinct_map)
qed

text \<open>
  Claim C7. In every state the scoring phase can reach, whatever the list of jobs (one per
  cluster and candidate model) and whatever the moments at which the children end, at most
  \<open>cpus\<close> matching jobs are alive; a step that starts a job is taken only from a state with
  fewer than \<open>cpus\<close> jobs alive; and when the keys \<^verbatim>\<open>f+cluster\<close> of the jobs are pairwise
  different, no job is alive once the joining loop has been left, that is when the
  identities are resolved.
\<close>

theorem scoring_jobs_bounded:
  assumes "sched_reachable cpus jobs s"
  shows "length (sched_alive s) \<le> cpus
     \<and> (\<forall>s' j. sched_step cpus s s' \<longrightarrow> sched_alive s' = j # sched_alive s \<longrightarrow>
           length (sched_alive s) < cpus)
     \<and> (distinct (map job_key jobs) \<longrightarrow> sched_pc s = AtResolve \<longrightarrow> sched_alive s = [])"
proof (intro conjI allI impI)
  from sched_bound_reachable[OF assms] show "length (sched_alive s) \<le> cpus"
    by (simp add: sched_bound_def)
next
  fix s' j
  assume "sched_step cpus s s'" "sched_alive s' = j # sched_alive s"
  then show "length (sched_alive s) < cpus"
    using sched_bound_reachable[OF assms] by (rule sched_start_only_below)
next
  assume "distinct (map job_key jobs)" "sched_pc s = AtResolve"
  with sched_joined_reachable[OF assms] show "sched_alive s = []"
    by (simp add: sched_joined_def)
qed

theorem scoring_jobs_bounded_witness:
  "distinct (map job_key [Job ''a.gmm'' ''S0'', Job ''b.gmm'' ''S0''])
   \<and> sched_reachable 1 [Job ''a.gmm'' ''S0'', Job ''b.gmm'' ''S0'']
        \<lparr>sched_pc = AtResolve, sched_todo = [], sched_alive = [], sched_procs = [(''a.gmmS0'', Job ''a.gmm'' ''S0''), (''b.gmmS0'', Job ''b.gmm'' ''S0'')], sched_joinq = []\<rparr>
   \<and> length (sched_alive \<lparr>sched_pc = AtResolve, sched_todo = [], sched_alive = [], sched_procs = [(''a.gmmS0'', Job ''a.gmm'' ''S0''), (''b.gmmS0'', Job ''b.gmm'' ''S0'')], sched_joinq = []\<rparr>) \<le> 1
   \<and> sched_alive \<lparr>sched_pc = AtResolve, sched_todo = [], sched_alive = [], sched_procs = [(''a.gmmS0'', Job ''a.gmm'' ''S0''), (''b.gmmS0'', Job ''b.gmm'' ''S0'')], sched_joinq = []\<rparr> = []
   \<and> sched_step 1
        \<lparr>sched_pc = AtStart, sched_todo = [Job ''b.gmm'' ''S0''], sched_alive = [], sched_procs = [(''a.gmmS0'', Job ''a.gmm'' ''S0'')], sched_joinq = []\<rparr>
        \<lparr>sched_pc = AtCheck, sched_todo = [], sched_alive = [Job ''b.gmm'' ''S0''], sched_procs = [(''a.gmmS0'', Job ''a.gmm'' ''S0''), (''b.gmmS0'', Job ''b.gmm'' ''S0'')], sched_joinq = []\<rparr>
   \<and> sched_alive \<lparr>sched_pc = AtCheck, sched_todo = [], sched_alive = [Job ''b.gmm'' ''S0''], sched_procs = [(''a.gmmS0'', Job ''a.gmm'' ''S0''), (''b.gmmS0'', Job ''b.gmm'' ''S0'')], sched_joinq = []\<rparr>
       = Job ''b.gmm'' ''S0'' # sched_alive \<lparr>sched_pc = AtStart, sched_todo = [Job ''b.gmm'' ''S0''], sched_alive = [], sched_procs = [(''a.gmmS0'', Job ''a.gmm'' ''S0'')], sched_joinq = []\<rparr>
   \<and> length (sched_alive \<lparr>sched_pc = AtStart, sched_todo = [Job ''b.gmm'' ''S0''], sched_alive = [], sched_procs = [(''a.gmmS0'', Job ''a.gmm'' ''S0'')], sched_joinq = []\<rparr>) < 1"
proof -
  let ?jobs = "[Job ''a.gmm'' ''S0'', Job ''b.gmm'' ''S0'']"
  let ?s0 = "\<lparr>sched_pc = AtCheck, sched_todo = [Job ''a.gmm'' ''S0'', Job ''b.gmm'' ''S0''], sched_alive = [], sched_procs = [], sched_joinq = []\<rparr>"
  let ?s1 = "\<lparr>sched_pc = AtStart, sched_todo = [Job ''a.gmm'' ''S0'', Job ''b.gmm'' ''S0''], sched_alive = [], sched_procs = [], sched_joinq = []\<rparr>"
  let ?s2 = "\<lparr>sched_pc = AtCheck, sched_todo = [Job ''b.gmm'' ''S0''], sched_alive = [Job ''a.gmm'' ''S0''], sched_procs = [(''a.gmmS0'', Job ''a.gmm'' ''S0'')], sched_joinq = []\<rparr>"
  let ?s3 = "\<lparr>sched_pc = AtPoll, sched_todo = [Job ''b.gmm'' ''S0''], sched_alive = [Job ''a.gmm'' ''S0''], sched_procs = [(''a.gmmS0'', Job ''a.gmm'' ''S0'')], sched_joinq = []\<rparr>"
  let ?s4 = "\<lparr>sched_pc = AtPoll, sched_todo = [Job ''b.gmm'' ''S0''], sched_alive = [], sched_procs = [(''a.gmmS0'', Job ''a.gmm'' ''S0'')], sched_joinq = []\<rparr>"
  let ?s5 = "\<lparr>sched_pc = AtStart, sched_todo = [Job ''b.gmm'' ''S0''], sched_alive = [], sched_procs = [(''a.gmmS0'', Job ''a.gmm'' ''S0'')], sched_joinq = []\<rparr>"
  let ?s6 = "\<lparr>sched_pc = AtCheck, sched_todo = [], sched_alive = [Job ''b.gmm'' ''S0''], sched_procs = [(''a.gmmS0'', Job ''a.gmm'' ''S0''), (''b.gmmS0'', Job ''b.gmm'' ''S0'')], sched_joinq = []\<rparr>"
  let ?s7 = "\<lparr>sched_pc = AtJoin, sched_todo = [], sched_alive = [Job ''b.gmm'' ''S0''], sched_procs = [(''a.gmmS0'', Job ''a.gmm'' ''S0''), (''b.gmmS0'', Job ''b.gmm'' ''S0'')], sched_joinq = [Job ''a.gmm'' ''S0'', Job ''b.gmm'' ''S0'']\<rparr>"
  let ?s8 = "\<lparr>sched_pc = AtJoin, sched_todo = [], sched_alive = [Job ''b.gmm'' ''S0''], sched_procs = [(''a.gmmS0'', Job ''a.gmm'' ''S0''), (''b.gmmS0'', Job ''b.gmm'' ''S0'')], sched_joinq = [Job ''b.gmm'' ''S0'']\<rparr>"
  let ?s9 = "\<lparr>sched_pc = AtJoin, sched_todo = [], sched_alive = [], sched_procs = [(''a.gmmS0'', Job ''a.gmm'' ''S0''), (''b.gmmS0'', Job ''b.gmm'' ''S0'')], sched_joinq = [Job ''b.gmm'' ''S0'']\<rparr>"
  let ?s10 = "\<lparr>sched_pc = AtJoin, sched_todo = [], sched_alive = [], sched_procs = [(''a.gmmS0'', Job ''a.gmm'' ''S0''), (''b.gmmS0'', Job ''b.gmm'' ''S0'')], sched_joinq = []\<rparr>"
  let ?s11 = "\<lparr>sched_pc = AtResolve, sched_todo = [], sched_alive = [], sched_procs = [(''a.gmmS0'', Job ''a.gmm'' ''S0''), (''b.gmmS0'', Job ''b.gmm'' ''S0'')], sched_joinq = []\<rparr>"
  have d: "distinct (map job_key ?jobs)" by (simp add: job_key_def)
  have r0: "sched_reachable 1 ?jobs ?s0"
    using sched_reachable.initial[of 1 ?jobs] by (simp add: sched_init_def)
  have "sched_step 1 ?s0 (?s0\<lparr>sched_pc := AtStart\<rparr>)"
    by (rule sched_step.test_below[where j="Job ''a.gmm'' ''S0''" and js="[Job ''b.gmm'' ''S0'']"]) simp_all
  then have "sched_step 1 ?s0 ?s1" by (simp add: job_key_def dict_values_def)
  with r0 have r1: "sched_reachable 1 ?jobs ?s1" by (rule sched_reachable.after)
  have "sched_step 1 ?s1 (?s1\<lparr>sched_pc := AtCheck, sched_todo := [Job ''b.gmm'' ''S0''], sched_alive := Job ''a.gmm'' ''S0'' # sched_alive ?s1, sched_procs := dict_set (sched_procs ?s1) (job_key (Job ''a.gmm'' ''S0'')) (Job ''a.gmm'' ''S0'')\<rparr>)"
    by (rule sched_step.start[where j="Job ''a.gmm'' ''S0''" and js="[Job ''b.gmm'' ''S0'']"]) simp_all
  then have "sched_step 1 ?s1 ?s2" by (simp add: job_key_def dict_values_def)
  with r1 have r2: "sched_reachable 1 ?jobs ?s2" by (rule sched_reachable.after)
  have "sched_step 1 ?s2 (?s2\<lparr>sched_pc := AtPoll\<rparr>)"
    by (rule sched_step.test_full[where j="Job ''b.gmm'' ''S0''" and js="[]"]) simp_all
  then have "sched_step 1 ?s2 ?s3" by (simp add: job_key_def dict_values_def)
  with r2 have r3: "sched_reachable 1 ?jobs ?s3" by (rule sched_reachable.after)
  have "sched_step 1 ?s3 (?s3\<lparr>sched_alive := remove1 (Job ''a.gmm'' ''S0'') (sched_alive ?s3)\<rparr>)"
    by (rule sched_step.child_ends[where j="Job ''a.gmm'' ''S0''"]) simp_all
  then have "sched_step 1 ?s3 ?s4" by (simp add: job_key_def dict_values_def)
  with r3 have r4: "sched_reachable 1 ?jobs ?s4" by (rule sched_reachable.after)
  have "sched_step 1 ?s4 (?s4\<lparr>sched_pc := AtStart\<rparr>)"
    by (rule sched_step.poll_leave) simp_all
  then have "sched_step 1 ?s4 ?s5" by (simp add: job_key_def dict_values_def)
  with r4 have r5: "sched_reachable 1 ?jobs ?s5" by (rule sched_reachable.after)
  have "sched_step 1 ?s5 (?s5\<lparr>sched_pc := AtCheck, sched_todo := [], sched_alive := Job ''b.gmm'' ''S0'' # sched_alive ?s5, sched_procs := dict_set (sched_procs ?s5) (job_key (Job ''b.gmm'' ''S0'')) (Job ''b.gmm'' ''S0'')\<rparr>)"
    by (rule sched_step.start[where j="Job ''b.gmm'' ''S0''" and js="[]"]) simp_all
  then have st56: "sched_step 1 ?s5 ?s6" by (simp add: job_key_def dict_values_def)
  from r5 st56 have r6: "sched_reachable 1 ?jobs ?s6" by (rule sched_reachable.after)
  have "sched_step 1 ?s6 (?s6\<lparr>sched_pc := AtJoin, sched_joinq := [Job ''a.gmm'' ''S0'', Job ''b.gmm'' ''S0'']\<rparr>)"
    by (rule sched_step.loops_end) (simp_all add: dict_values_def)
  then have "sched_step 1 ?s6 ?s7" by (simp add: job_key_def dict_values_def)
  with r6 have r7: "sched_reachable 1 ?jobs ?s7" by (rule sched_reachable.after)
  have "sched_step 1 ?s7 (?s7\<lparr>sched_joinq := [Job ''b.gmm'' ''S0'']\<rparr>)"
    by (rule sched_step.join_next[where j="Job ''a.gmm'' ''S0''" and js="[Job ''b.gmm'' ''S0'']"]) simp_all
  then have "sched_step 1 ?s7 ?s8" by (simp add: job_key_def dict_values_def)
  with r7 have r8: "sched_reachable 1 ?jobs ?s8" by (rule sched_reachable.after)
  have "sched_step 1 ?s8 (?s8\<lparr>sched_alive := remove1 (Job ''b.gmm'' ''S0'') (sched_alive ?s8)\<rparr>)"
    by (rule sched_step.child_ends[where j="Job ''b.gmm'' ''S0''"]) simp_all
  then have "sched_step 1 ?s8 ?s9" by (simp add: job_key_def dict_values_def)
  with r8 have r9: "sched_reachable 1 ?jobs ?s9" by (rule sched_reachable.after)
  have "sched_step 1 ?s9 (?s9\<lparr>sched_joinq := []\<rparr>)"
    by (rule sched_step.join_next[where j="Job ''b.gmm'' ''S0''" and js="[]"]) simp_all
  then have "sched_step 1 ?s9 ?s10" by (simp add: job_key_def dict_values_def)
  with r9 have r10: "sched_reachable 1 ?jobs ?s10" by (rule sched_reachable.after)
  have "sched_step 1 ?s10 (?s10\<lparr>sched_pc := AtResolve\<rparr>)"
    by (rule sched_step.join_end) simp_all
  then have "sched_step 1 ?s10 ?s11" by (simp add: job_key_def dict_values_def)
  with r10 have r11: "sched_reachable 1 ?jobs ?s11" by (rule sched_reachable.after)
  note th = scoring_jobs_bounded [OF r11]
  have pcr: "sched_pc ?s11 = AtResolve" by simp
  from th have b: "length (sched_alive ?s11) \<le> 1" by (rule conjunct1)
  have e: "sched_alive ?s11 = []"
    by (rule th[THEN conjunct2, THEN conjunct2, rule_format, OF d pcr])
  have al: "sched_alive ?s6 = Job ''b.gmm'' ''S0'' # sched_alive ?s5" by simp
  have a: "length (sched_alive ?s5) < 1"
    by (rule scoring_jobs_bounded [OF r5, THEN conjunct2, THEN conjunct1, rule_format, OF st56 al])
  show ?thesis by (intro conjI) (rule d r11 b e st56 al a)+
qed

end
